theory Spec2Isabelle
  imports Main "HOL-Library.Word"
begin

section \<open>Machine types\<close>

text \<open>
  The program is C++ on an LP64 little-endian target: \<open>uint64_t\<close>, \<open>size_t\<close> and zlib's
  \<open>uLong\<close> are 64-bit words, \<open>int\<close> and \<open>uint32_t\<close> are 32-bit words (\<open>int\<close> is read
  through \<open>sint\<close>). A \<open>vector<unsigned char>\<close> is a list of bytes. A file is the list of
  its bytes, and a path that cannot be opened is \<open>None\<close>.

  The functions that carry the source's names describe a run in which every \<open>vector\<close>
  allocation succeeds. On the decompression path the sizes of the buffers come from the
  header of the input file; there the functions with the suffix \<open>_heap\<close> add the
  exceptions that \<open>vector\<close> throws and the termination of the process that follows.
\<close>

type_synonym byte = "8 word"
type_synonym u32 = "32 word"
type_synonym u64 = "64 word"
type_synonym i32 = "32 word"

record ChunkMeta =
  compressed_size :: u64
  original_size :: u64

text \<open>\<open>const char MAGIC[4] = {'M','T','Z','1'}\<close> and \<open>const uint32_t VERSION = 1\<close>.\<close>

definition MAGIC :: "byte list" where
  "MAGIC = [0x4D, 0x54, 0x5A, 0x31]"

definition VERSION :: u32 where
  "VERSION = 1"

definition MIN_CHUNK :: u64 where
  "MIN_CHUNK = 64 * 1024"

text \<open>zlib's return codes and compression levels, as \<open>zlib.h\<close> defines them.\<close>

definition Z_OK :: int where "Z_OK = 0"
definition Z_DATA_ERROR :: int where "Z_DATA_ERROR = - 3"
definition Z_MEM_ERROR :: int where "Z_MEM_ERROR = - 4"
definition Z_BUF_ERROR :: int where "Z_BUF_ERROR = - 5"
definition Z_BEST_SPEED :: int where "Z_BEST_SPEED = 1"
definition Z_BEST_COMPRESSION :: int where "Z_BEST_COMPRESSION = 9"

section \<open>Byte order\<close>

text \<open>
  \<open>out.write(reinterpret_cast<const char*>(&x), sizeof(x))\<close> emits the object
  representation of \<open>x\<close>: on the little-endian target, the \<open>n\<close> low-order bytes first.
\<close>

fun le_bytes :: "nat \<Rightarrow> nat \<Rightarrow> byte list" where
  "le_bytes 0 x = []"
| "le_bytes (Suc n) x = of_nat (x mod 256) # le_bytes n (x div 256)"

fun le_nat :: "byte list \<Rightarrow> nat" where
  "le_nat [] = 0"
| "le_nat (b # bs) = unat b + 256 * le_nat bs"

section \<open>Vectors and input streams\<close>

text \<open>\<open>v.resize(n)\<close>: truncate, or extend with value-initialised (zero) bytes.\<close>

definition resize :: "nat \<Rightarrow> byte list \<Rightarrow> byte list" where
  "resize n v = take n v @ replicate (n - length v) 0"

text \<open>
  Writing \<open>src\<close> through \<open>buf.data()\<close>: the bytes land on the front of the buffer, whose
  size does not change.
\<close>

definition store :: "byte list \<Rightarrow> byte list \<Rightarrow> byte list" where
  "store buf src = take (length buf) (src @ drop (length src) buf)"

text \<open>
  An \<open>ifstream\<close>: the bytes not yet consumed and the stream's \<open>good()\<close> state.
  \<open>in.read(p, n)\<close> on a good stream with \<open>n\<close> bytes left delivers them; with fewer left it
  delivers what is there and sets \<open>eofbit | failbit\<close>; on a failed stream it delivers
  nothing. The result is (\<open>!in.fail()\<close>, the bytes delivered, the stream afterwards).
\<close>

record istream =
  rest :: "byte list"
  good :: bool

definition open_in :: "byte list option \<Rightarrow> istream option" where
  "open_in f = (case f of None \<Rightarrow> None | Some bs \<Rightarrow> Some \<lparr>rest = bs, good = True\<rparr>)"

definition stream_read :: "istream \<Rightarrow> nat \<Rightarrow> bool \<times> byte list \<times> istream" where
  "stream_read s n =
     (if \<not> good s then (False, [], s)
      else if n \<le> length (rest s) then (True, take n (rest s), s\<lparr>rest := drop n (rest s)\<rparr>)
      else (False, rest s, s\<lparr>rest := [], good := False\<rparr>))"

text \<open>\<open>file_size\<close>: 0 when the file cannot be opened, else \<open>(uint64_t)in.tellg()\<close> at the end.\<close>

definition file_size :: "byte list option \<Rightarrow> u64" where
  "file_size f = (case open_in f of None \<Rightarrow> 0 | Some s \<Rightarrow> of_nat (length (rest s)))"

section \<open>Codec adapter\<close>

text \<open>
  zlib is an external library: its three entry points are parameters of the model.
  \<open>compress2 cd destLen source level\<close> and \<open>uncompress cd destLen source\<close> return the
  status code and the bytes the primitive produced; the length of those bytes is the
  value it leaves in \<open>*destLen\<close>.
\<close>

record codec =
  compressBound :: "u64 \<Rightarrow> u64"
  compress2 :: "u64 \<Rightarrow> byte list \<Rightarrow> int \<Rightarrow> int \<times> byte list"
  uncompress :: "u64 \<Rightarrow> byte list \<Rightarrow> int \<times> byte list"

definition compress_chunk :: "codec \<Rightarrow> byte list \<Rightarrow> byte list \<Rightarrow> int \<Rightarrow> bool \<times> byte list" where
  "compress_chunk cd inbuf outbuf level =
     (let src_len = (of_nat (length inbuf) :: u64);
          bound = compressBound cd src_len;
          outbuf1 = resize (unat bound) outbuf;
          (ret, produced) = compress2 cd bound inbuf level;
          outbuf2 = store outbuf1 produced;
          bound' = (of_nat (length produced) :: u64)
      in if ret \<noteq> Z_OK then (False, outbuf2)
         else (True, resize (unat bound') outbuf2))"

definition decompress_chunk :: "codec \<Rightarrow> byte list \<Rightarrow> byte list \<Rightarrow> u64 \<Rightarrow> bool \<times> byte list" where
  "decompress_chunk cd inbuf outbuf expected_size =
     (let dest_len = expected_size;
          outbuf1 = resize (unat dest_len) outbuf;
          (ret, produced) = uncompress cd dest_len inbuf;
          outbuf2 = store outbuf1 produced;
          dest_len' = (of_nat (length produced) :: u64)
      in if ret \<noteq> Z_OK then (False, outbuf2)
         else if dest_len' \<noteq> expected_size then (False, outbuf2)
         else (True, outbuf2))"

section \<open>Container format\<close>

definition write_meta :: "ChunkMeta \<Rightarrow> byte list" where
  "write_meta m = le_bytes 8 (unat (compressed_size m)) @ le_bytes 8 (unat (original_size m))"

text \<open>\<open>write_header\<close> returns the bytes it appends to the output stream.\<close>

definition write_header :: "ChunkMeta list \<Rightarrow> byte list" where
  "write_header metas =
     (let ver = VERSION;
          cnt = (of_nat (length metas) :: u64)
      in MAGIC @ le_bytes 4 (unat ver) @ le_bytes 8 (unat cnt) @ concat (map write_meta metas))"

text \<open>The metadata loop of \<open>read_header\<close>, for the \<open>n\<close> records still to read.\<close>

fun read_metas :: "nat \<Rightarrow> istream \<Rightarrow> ChunkMeta list option \<times> istream" where
  "read_metas 0 s = (Some [], s)"
| "read_metas (Suc n) s =
     (let (ok1, cb, s1) = stream_read s 8 in
      if \<not> ok1 then (None, s1)
      else let (ok2, ob, s2) = stream_read s1 8 in
      if \<not> ok2 then (None, s2)
      else (case read_metas n s2 of
              (None, s3) \<Rightarrow> (None, s3)
            | (Some ms, s3) \<Rightarrow>
                (Some (\<lparr>compressed_size = of_nat (le_nat cb),
                        original_size = of_nat (le_nat ob)\<rparr> # ms), s3)))"

text \<open>\<open>read_header\<close>: \<open>None\<close> where the source returns \<open>false\<close>, else the metadata.\<close>

definition read_header :: "istream \<Rightarrow> ChunkMeta list option \<times> istream" where
  "read_header s =
     (let (ok1, magic, s1) = stream_read s 4 in
      if \<not> ok1 then (None, s1)
      else if magic \<noteq> MAGIC then (None, s1)
      else let (ok2, vb, s2) = stream_read s1 4; ver = (of_nat (le_nat vb) :: u32) in
      if \<not> ok2 then (None, s2)
      else if ver \<noteq> VERSION then (None, s2)
      else let (ok3, nb, s3) = stream_read s2 8; cnt = (of_nat (le_nat nb) :: u64) in
      if \<not> ok3 then (None, s3)
      else read_metas (unat cnt) s3)"

section \<open>Pipeline driver\<close>

text \<open>
  What an invocation leaves behind: the exit status, the output file (\<open>None\<close> when it was
  never opened) and the diagnostics sent to \<open>cerr\<close>. Per-chunk diagnostics are listed in
  index order. Whether the output path can be opened is the parameter \<open>out_ok\<close> of the
  drivers; writes to an open output stream are taken to succeed.
\<close>

datatype diag =
    EmptyOrMissingInput
  | FailedOpenInput
  | CompressionFailed nat
  | FailedOpenOutput
  | CannotOpenCompressed
  | InvalidHeader
  | FailedReadingBlock nat
  | DecompressionFailed nat
  | Usage

record outcome =
  exit_status :: int
  out_file :: "byte list option"
  diags :: "diag list"

text \<open>
  The chunk layout of \<open>compress_file\<close>: \<open>ideal_chunk\<close> and \<open>nthreads\<close> after the
  minimum-chunk adjustment.
\<close>

definition plan_layout :: "u64 \<Rightarrow> i32 \<Rightarrow> u64 \<times> i32" where
  "plan_layout total_size threads_requested =
     (let nthreads = (if 1 <s threads_requested then threads_requested else 1);
          ideal_chunk = (total_size + scast nthreads - 1) div scast nthreads
      in if ideal_chunk < MIN_CHUNK then
           let ideal_chunk = min MIN_CHUNK total_size;
               q = (ucast ((total_size + ideal_chunk - 1) div ideal_chunk) :: i32);
               nthreads = (if 1 <s q then q else 1)
           in (ideal_chunk, nthreads)
         else (ideal_chunk, nthreads))"

text \<open>
  One slot of the chunk table: \<open>orig_sizes[i]\<close> and \<open>chunks[i]\<close>, together with the
  \<open>start\<close> offset the loop computed for it.
\<close>

record chunk_slot =
  start :: u64
  orig_size :: u64
  bytes :: "byte list"

text \<open>
  The read loop, from index \<open>i\<close>. It returns the slots from \<open>i\<close> on: the \<open>break\<close>
  branch cuts both vectors at \<open>i\<close>. The index is an \<open>int\<close> below \<open>nthreads\<close>, so it
  never wraps and is a natural number here; \<open>(uint64_t)i * ideal_chunk\<close> is the 64-bit
  product. The stream is read front to back: \<open>start\<close> decides whether a chunk exists and
  how long it is, not where its bytes come from.
\<close>

function read_chunks :: "nat \<Rightarrow> nat \<Rightarrow> u64 \<Rightarrow> u64 \<Rightarrow> istream \<Rightarrow> chunk_slot list" where
  "read_chunks i nthreads ideal_chunk total_size s =
     (if i < nthreads then
        let start = of_nat i * ideal_chunk in
        if start \<ge> total_size then []
        else
          let remain = total_size - start;
              sz = min ideal_chunk remain;
              (ok, got, s') = stream_read s (unat sz)
          in \<lparr>start = start, orig_size = sz, bytes = store (resize (unat sz) []) got\<rparr>
               # read_chunks (i + 1) nthreads ideal_chunk total_size s'
      else [])"
  by pat_completeness auto
termination
  by (relation "measure (\<lambda>(i, nthreads, ideal_chunk, total_size, s). nthreads - i)") auto

declare read_chunks.simps [simp del]

text \<open>One compression task: what the worker for a chunk leaves in its two slots.\<close>

definition compress_task :: "codec \<Rightarrow> byte list \<Rightarrow> bool \<times> byte list \<times> ChunkMeta" where
  "compress_task cd chunk =
     (let (ok, out) = compress_chunk cd chunk [] Z_BEST_COMPRESSION in
      if \<not> ok then
        (False, out, \<lparr>compressed_size = 0, original_size = of_nat (length chunk)\<rparr>)
      else
        (True, out, \<lparr>compressed_size = of_nat (length out), original_size = of_nat (length chunk)\<rparr>))"

text \<open>
  The workers write disjoint slots and read only their own chunk, so the fork-join is the
  map of the task over the chunk table.
\<close>

definition compress_file :: "codec \<Rightarrow> byte list option \<Rightarrow> bool \<Rightarrow> i32 \<Rightarrow> outcome" where
  "compress_file cd inpath out_ok threads_requested =
     (let total_size = file_size inpath in
      if total_size = 0 then
        \<lparr>exit_status = 1, out_file = None, diags = [EmptyOrMissingInput]\<rparr>
      else case open_in inpath of
        None \<Rightarrow> \<lparr>exit_status = 1, out_file = None, diags = [FailedOpenInput]\<rparr>
      | Some ins \<Rightarrow>
          let (ideal_chunk, nthreads) = plan_layout total_size threads_requested;
              slots = read_chunks 0 (nat (sint nthreads)) ideal_chunk total_size ins;
              chunks = map bytes slots;
              results = map (compress_task cd) chunks;
              compressed = map (\<lambda>(ok, out, m). out) results;
              metas = map (\<lambda>(ok, out, m). m) results;
              errs = map CompressionFailed
                       (filter (\<lambda>i. \<not> fst (results ! i)) [0..<length results])
          in if \<not> out_ok then
               \<lparr>exit_status = 1, out_file = None, diags = errs @ [FailedOpenOutput]\<rparr>
             else
               \<lparr>exit_status = 0, out_file = Some (write_header metas @ concat compressed),
                diags = errs\<rparr>)"

text \<open>The payload loop of \<open>decompress_file\<close>, from block index \<open>i\<close>.\<close>

fun read_blocks :: "nat \<Rightarrow> ChunkMeta list \<Rightarrow> istream \<Rightarrow> nat + byte list list" where
  "read_blocks i [] s = Inr []"
| "read_blocks i (m # ms) s =
     (let (ok, got, s') = stream_read s (unat (compressed_size m)) in
      if \<not> ok then Inl i
      else (case read_blocks (i + 1) ms s' of
              Inl j \<Rightarrow> Inl j
            | Inr bs \<Rightarrow> Inr (store (resize (unat (compressed_size m)) []) got # bs)))"

definition decompress_file :: "codec \<Rightarrow> byte list option \<Rightarrow> bool \<Rightarrow> i32 \<Rightarrow> outcome" where
  "decompress_file cd inpath out_ok threads_requested =
     (case open_in inpath of
        None \<Rightarrow> \<lparr>exit_status = 1, out_file = None, diags = [CannotOpenCompressed]\<rparr>
      | Some ins \<Rightarrow>
          (case read_header ins of
             (None, s1) \<Rightarrow> \<lparr>exit_status = 1, out_file = None, diags = [InvalidHeader]\<rparr>
           | (Some metas, s1) \<Rightarrow>
               (case read_blocks 0 metas s1 of
                  Inl i \<Rightarrow> \<lparr>exit_status = 1, out_file = None, diags = [FailedReadingBlock i]\<rparr>
                | Inr comp_blocks \<Rightarrow>
                    let results = map (\<lambda>(blk, m). decompress_chunk cd blk [] (original_size m))
                                 (zip comp_blocks metas);
                        decompressed = map snd results;
                        errs = map DecompressionFailed
                                 (filter (\<lambda>i. \<not> fst (results ! i)) [0..<length results])
                    in if \<not> out_ok then
                         \<lparr>exit_status = 1, out_file = None, diags = errs @ [FailedOpenOutput]\<rparr>
                       else
                         \<lparr>exit_status = 0, out_file = Some (concat decompressed),
                          diags = errs\<rparr>)))"

text \<open>\<open>main\<close>, after \<open>argc\<close> has been checked and \<open>argv[4]\<close> parsed by \<open>stoi\<close>.\<close>

definition main :: "codec \<Rightarrow> string \<Rightarrow> byte list option \<Rightarrow> bool \<Rightarrow> i32 \<Rightarrow> outcome" where
  "main cd mode inpath out_ok threads0 =
     (let threads = (if sint threads0 \<le> 0 then 1 else threads0) in
      if mode = ''c'' then compress_file cd inpath out_ok threads
      else if mode = ''d'' then decompress_file cd inpath out_ok threads
      else \<lparr>exit_status = 1, out_file = None, diags = [Usage]\<rparr>)"

section \<open>Allocation failures on the decompression path\<close>

text \<open>
  A \<open>std::vector\<close> with elements of \<open>elem\<close> bytes that is asked for \<open>n\<close> elements throws
  \<open>length_error\<close> when \<open>n\<close> exceeds \<open>max_size() = PTRDIFF_MAX / elem\<close>; otherwise it requests
  one block from the allocator and \<open>bad_alloc\<close> is thrown when the allocator refuses. A
  request for no elements allocates nothing. Nothing in the program catches either
  exception, so \<open>std::terminate\<close> ends the process.

  The requests whose size is taken from the header are made at five sites:
  \<open>metas.resize(cnt)\<close> in \<open>read_header\<close> (16-byte elements), the tables
  \<open>comp_blocks(chunk_count)\<close> and \<open>decompressed(chunk_count)\<close> (24-byte elements),
  \<open>comp_blocks[i].resize(compressed_size)\<close> and, in worker \<open>i\<close>,
  \<open>outbuf.resize(dest_len)\<close>. A run reaches each site at most once, so whatever the
  allocator does in a run is a predicate \<open>heap\<close> on the sites: \<open>heap st\<close> holds when the
  request made at \<open>st\<close> is granted. Thread creation and the growth of the \<open>workers\<close>
  vector are taken to succeed.
\<close>

datatype exn = LengthError | BadAlloc

datatype site = MetaTable | BlockTable | Block nat | OutTable | OutBuf nat

definition PTRDIFF_MAX :: nat where
  "PTRDIFF_MAX = 2 ^ 63 - 1"

definition vector_alloc :: "(site \<Rightarrow> bool) \<Rightarrow> site \<Rightarrow> nat \<Rightarrow> nat \<Rightarrow> exn option" where
  "vector_alloc heap st elem n =
     (if PTRDIFF_MAX div elem < n then Some LengthError
      else if 0 < n \<and> \<not> heap st then Some BadAlloc
      else None)"

text \<open>
  \<open>decompress_chunk\<close> as worker \<open>i\<close> calls it, on a fresh \<open>outbuf\<close>: \<open>Inl\<close> is the
  exception that leaves the function.
\<close>

definition decompress_chunk_heap ::
  "(site \<Rightarrow> bool) \<Rightarrow> nat \<Rightarrow> codec \<Rightarrow> byte list \<Rightarrow> byte list \<Rightarrow> u64 \<Rightarrow> exn + bool \<times> byte list" where
  "decompress_chunk_heap heap i cd inbuf outbuf expected_size =
     (let dest_len = expected_size in
      case vector_alloc heap (OutBuf i) 1 (unat dest_len) of
        Some e \<Rightarrow> Inl e
      | None \<Rightarrow>
          let outbuf1 = resize (unat dest_len) outbuf;
              (ret, produced) = uncompress cd dest_len inbuf;
              outbuf2 = store outbuf1 produced;
              dest_len' = (of_nat (length produced) :: u64)
          in if ret \<noteq> Z_OK then Inr (False, outbuf2)
             else if dest_len' \<noteq> expected_size then Inr (False, outbuf2)
             else Inr (True, outbuf2))"

text \<open>\<open>read_header\<close>, with the allocation of the metadata table.\<close>

definition read_header_heap ::
  "(site \<Rightarrow> bool) \<Rightarrow> istream \<Rightarrow> exn + ChunkMeta list option \<times> istream" where
  "read_header_heap heap s =
     (let (ok1, magic, s1) = stream_read s 4 in
      if \<not> ok1 then Inr (None, s1)
      else if magic \<noteq> MAGIC then Inr (None, s1)
      else let (ok2, vb, s2) = stream_read s1 4; ver = (of_nat (le_nat vb) :: u32) in
      if \<not> ok2 then Inr (None, s2)
      else if ver \<noteq> VERSION then Inr (None, s2)
      else let (ok3, nb, s3) = stream_read s2 8; cnt = (of_nat (le_nat nb) :: u64) in
      if \<not> ok3 then Inr (None, s3)
      else case vector_alloc heap MetaTable 16 (unat cnt) of
             Some e \<Rightarrow> Inl e
           | None \<Rightarrow> Inr (read_metas (unat cnt) s3))"

text \<open>The payload loop, with the allocation of each block.\<close>

fun read_blocks_heap ::
  "(site \<Rightarrow> bool) \<Rightarrow> nat \<Rightarrow> ChunkMeta list \<Rightarrow> istream \<Rightarrow> exn + nat + byte list list" where
  "read_blocks_heap heap i [] s = Inr (Inr [])"
| "read_blocks_heap heap i (m # ms) s =
     (case vector_alloc heap (Block i) 1 (unat (compressed_size m)) of
        Some e \<Rightarrow> Inl e
      | None \<Rightarrow>
          let (ok, got, s') = stream_read s (unat (compressed_size m)) in
          if \<not> ok then Inr (Inl i)
          else (case read_blocks_heap heap (i + 1) ms s' of
                  Inl e \<Rightarrow> Inl e
                | Inr (Inl j) \<Rightarrow> Inr (Inl j)
                | Inr (Inr bs) \<Rightarrow>
                    Inr (Inr (store (resize (unat (compressed_size m)) []) got # bs))))"

text \<open>
  The workers of \<open>decompress_file\<close>, from index \<open>i\<close>: the results of all of them, or the
  exception that terminates the process. When several workers throw, which exception
  reaches \<open>std::terminate\<close> depends on scheduling; the one of the lowest index is reported
  here.
\<close>

fun run_workers_heap ::
  "(site \<Rightarrow> bool) \<Rightarrow> codec \<Rightarrow> nat \<Rightarrow> byte list list \<Rightarrow> ChunkMeta list \<Rightarrow> exn + (bool \<times> byte list) list" where
  "run_workers_heap heap cd i (blk # blks) (m # ms) =
     (case decompress_chunk_heap heap i cd blk [] (original_size m) of
        Inl e \<Rightarrow> Inl e
      | Inr r \<Rightarrow>
          (case run_workers_heap heap cd (i + 1) blks ms of
             Inl e \<Rightarrow> Inl e
           | Inr rs \<Rightarrow> Inr (r # rs)))"
| "run_workers_heap heap cd i blks ms = Inr []"

text \<open>
  \<open>decompress_file\<close> with its allocations: \<open>Inl e\<close> when the process is terminated by the
  uncaught exception \<open>e\<close>. Every allocation site precedes the opening of the output file,
  so a terminated run leaves no output file.
\<close>

definition decompress_file_heap ::
  "(site \<Rightarrow> bool) \<Rightarrow> codec \<Rightarrow> byte list option \<Rightarrow> bool \<Rightarrow> i32 \<Rightarrow> exn + outcome" where
  "decompress_file_heap heap cd inpath out_ok threads_requested =
     (case open_in inpath of
        None \<Rightarrow> Inr \<lparr>exit_status = 1, out_file = None, diags = [CannotOpenCompressed]\<rparr>
      | Some ins \<Rightarrow>
          (case read_header_heap heap ins of
             Inl e \<Rightarrow> Inl e
           | Inr (None, s1) \<Rightarrow>
               Inr \<lparr>exit_status = 1, out_file = None, diags = [InvalidHeader]\<rparr>
           | Inr (Some metas, s1) \<Rightarrow>
               (case vector_alloc heap BlockTable 24 (length metas) of
                  Some e \<Rightarrow> Inl e
                | None \<Rightarrow>
                    (case read_blocks_heap heap 0 metas s1 of
                       Inl e \<Rightarrow> Inl e
                     | Inr (Inl i) \<Rightarrow>
                         Inr \<lparr>exit_status = 1, out_file = None, diags = [FailedReadingBlock i]\<rparr>
                     | Inr (Inr comp_blocks) \<Rightarrow>
                         (case vector_alloc heap OutTable 24 (length metas) of
                            Some e \<Rightarrow> Inl e
                          | None \<Rightarrow>
                              (case run_workers_heap heap cd 0 comp_blocks metas of
                                 Inl e \<Rightarrow> Inl e
                               | Inr results \<Rightarrow>
                                   let decompressed = map snd results;
                                       errs = map DecompressionFailed
                                                (filter (\<lambda>i. \<not> fst (results ! i))
                                                   [0..<length results])
                                   in if \<not> out_ok then
                                        Inr \<lparr>exit_status = 1, out_file = None,
                                             diags = errs @ [FailedOpenOutput]\<rparr>
                                      else
                                        Inr \<lparr>exit_status = 0,
                                             out_file = Some (concat decompressed),
                                             diags = errs\<rparr>))))))"


section \<open>Reference codecs for concrete runs\<close>

text \<open>
  \<open>zlib_bound\<close> is the formula of zlib's \<open>compressBound\<close>. \<open>stored_codec\<close> stores a
  chunk behind one marker byte and rejects a payload that does not start with it, or that
  does not fit the destination. \<open>oom_codec limit\<close> is the same codec with \<open>compress2\<close>
  failing with \<open>Z_MEM_ERROR\<close>, the status zlib returns when it cannot allocate, on every
  source of at least \<open>limit\<close> bytes.
\<close>

definition zlib_bound :: "u64 \<Rightarrow> u64" where
  "zlib_bound n = n + drop_bit 12 n + drop_bit 14 n + drop_bit 25 n + 13"

definition stored_codec :: codec where
  "stored_codec =
     \<lparr>compressBound = zlib_bound,
      compress2 = (\<lambda>destLen source level.
         if length source + 1 \<le> unat destLen then (Z_OK, 0x78 # source)
         else (Z_BUF_ERROR, [])),
      uncompress = (\<lambda>destLen source.
         case source of
           [] \<Rightarrow> (Z_DATA_ERROR, [])
         | b # payload \<Rightarrow>
             if b \<noteq> 0x78 then (Z_DATA_ERROR, [])
             else if length payload \<le> unat destLen then (Z_OK, payload)
             else (Z_BUF_ERROR, take (unat destLen) payload))\<rparr>"

definition oom_codec :: "nat \<Rightarrow> codec" where
  "oom_codec limit = stored_codec\<lparr>compress2 := (\<lambda>destLen source level.
       if limit \<le> length source then (Z_MEM_ERROR, [])
       else compress2 stored_codec destLen source level)\<rparr>"

text \<open>An allocator that grants every request.\<close>

definition generous_heap :: "site \<Rightarrow> bool" where
  "generous_heap st = True"

text \<open>
  The round-trip contract of the deflate primitive, for the calls the program makes: a
  non-empty source compressed at \<open>Z_BEST_COMPRESSION\<close> into a buffer of \<open>compressBound\<close>
  bytes succeeds and fits the buffer, and \<open>uncompress\<close> of the result into a buffer of the
  source's length succeeds and returns the source.
\<close>

definition codec_roundtrip :: "codec \<Rightarrow> bool" where
  "codec_roundtrip cd \<longleftrightarrow>
     (\<forall>x. x \<noteq> [] \<and> length x < 2 ^ 63 \<longrightarrow>
        (let bound = compressBound cd (of_nat (length x));
             (ret, c) = compress2 cd bound x Z_BEST_COMPRESSION
         in ret = Z_OK \<and> length c \<le> unat bound \<and>
            uncompress cd (of_nat (length x)) c = (Z_OK, x)))"

section \<open>The chunk table and its specification\<close>

text \<open>
  The chunk table \<open>compress_file\<close> builds for a file of \<open>total_size\<close> bytes, and the byte
  ranges (start offset, size) of its slots.
\<close>

definition planned_slots :: "u64 \<Rightarrow> i32 \<Rightarrow> istream \<Rightarrow> chunk_slot list" where
  "planned_slots total_size threads_requested ins =
     (let (ideal_chunk, nthreads) = plan_layout total_size threads_requested
      in read_chunks 0 (nat (sint nthreads)) ideal_chunk total_size ins)"

definition ranges :: "chunk_slot list \<Rightarrow> (nat \<times> nat) list" where
  "ranges slots = map (\<lambda>c. (unat (start c), unat (orig_size c))) slots"

text \<open>
  A list of ranges partitions \<open>[a, t)\<close>: each range is non-empty and starts where the one
  before it ended, the first at \<open>a\<close>, and the last ends at \<open>t\<close>.
\<close>

fun partitions_from :: "nat \<Rightarrow> (nat \<times> nat) list \<Rightarrow> nat \<Rightarrow> bool" where
  "partitions_from a [] t \<longleftrightarrow> a = t"
| "partitions_from a ((st, sz) # rs) t \<longleftrightarrow> st = a \<and> 0 < sz \<and> partitions_from (a + sz) rs t"

text \<open>
  The planner's chunk size in the words of the specification: \<open>ceil(total_size / p)\<close>,
  replaced by \<open>min(MIN_CHUNK, total_size)\<close> when it is below the 64 KiB floor.
\<close>

definition ceil_div :: "nat \<Rightarrow> nat \<Rightarrow> nat" where
  "ceil_div a b = (if a mod b = 0 then a div b else a div b + 1)"

definition spec_ideal_chunk :: "nat \<Rightarrow> int \<Rightarrow> nat" where
  "spec_ideal_chunk total_size requested =
     (let p = nat (max 1 requested);
          ideal_chunk = ceil_div total_size p
      in if ideal_chunk < 64 * 1024 then min (64 * 1024) total_size else ideal_chunk)"

section \<open>Buffers and byte order\<close>

lemma length_store [simp]: "length (store buf src) = length buf"
  by (simp add: store_def)

lemma length_resize [simp]: "length (resize n v) = n"
  by (simp add: resize_def)

lemma length_le_bytes [simp]: "length (le_bytes n x) = n"
  by (induction n arbitrary: x) simp_all

lemma le_nat_bound: "le_nat bs < 256 ^ length bs"
proof (induction bs)
  case Nil
  then show ?case by simp
next
  case (Cons b bs)
  have "unat b < 256" using unsigned_less [of b] by simp
  with Cons show ?case by simp
qed

lemma le_bytes_le_nat: "le_bytes (length bs) (le_nat bs) = bs"
proof (induction bs)
  case Nil
  then show ?case by simp
next
  case (Cons b bs)
  have b: "unat b < 256" using unsigned_less [of b] by simp
  then have "(unat b + 256 * le_nat bs) mod 256 = unat b"
    and "(unat b + 256 * le_nat bs) div 256 = le_nat bs"
    by simp_all
  with Cons show ?case by simp
qed

lemma le_nat_le_bytes: "le_nat (le_bytes n x) = x mod 256 ^ n"
proof (induction n arbitrary: x)
  case 0
  then show ?case by simp
next
  case (Suc n)
  have "unat (of_nat (x mod 256) :: byte) = x mod 256"
    by (simp add: unat_of_nat)
  with Suc show ?case
    by (simp add: mod_mult2_eq)
qed

section \<open>Decompression: header checks and output length\<close>


lemma read_blocks_length: "read_blocks i ms s = Inr bs \<Longrightarrow> length bs = length ms"
  by (induction ms arbitrary: i s bs) (auto split: prod.splits if_splits sum.splits)


lemma version_field:
  assumes "length vb = 4" "vb \<noteq> le_bytes 4 (unat VERSION)"
  shows "(of_nat (le_nat vb) :: u32) \<noteq> VERSION"
proof
  assume eq: "(of_nat (le_nat vb) :: u32) = VERSION"
  have "le_nat vb < 2 ^ 32" using le_nat_bound [of vb] assms(1) by simp
  then have "unat (of_nat (le_nat vb) :: u32) = le_nat vb"
    by (simp add: unat_of_nat)
  with eq have "le_nat vb = unat VERSION" by simp
  with le_bytes_le_nat [of vb] assms(1) have "vb = le_bytes 4 (unat VERSION)" by simp
  with assms(2) show False by contradiction
qed

text \<open>
  C4. A file whose first four bytes are not the magic tag, or whose next four bytes are
  not the encoding of version 1 (a file too short to hold either field included), is
  rejected: \<open>decompress_file\<close> exits with status 1 and opens no output file, and
  \<open>read_header\<close> has returned \<open>false\<close> with at most the first 8 bytes of the file
  consumed, so neither the chunk count, nor a metadata record, nor a payload byte was
  read.
\<close>

theorem decompress_rejects_bad_magic_or_version:
  assumes "take 4 bs \<noteq> MAGIC \<or> take 4 (drop 4 bs) \<noteq> le_bytes 4 (unat VERSION)"
  shows "decompress_file cd (Some bs) out_ok t =
           \<lparr>exit_status = 1, out_file = None, diags = [InvalidHeader]\<rparr> \<and>
         (\<exists>s'. read_header \<lparr>rest = bs, good = True\<rparr> = (None, s') \<and>
               length bs - length (rest s') \<le> 8)"
proof -
  have "\<exists>s'. read_header \<lparr>rest = bs, good = True\<rparr> = (None, s') \<and>
               length bs - length (rest s') \<le> 8"
  proof (cases "4 \<le> length bs")
    case False
    then show ?thesis by (simp add: read_header_def stream_read_def)
  next
    case len4: True
    show ?thesis
    proof (cases "take 4 bs = MAGIC")
      case False
      with len4 show ?thesis by (simp add: read_header_def stream_read_def)
    next
      case magic: True
      with assms have ver: "take 4 (drop 4 bs) \<noteq> le_bytes 4 (unat VERSION)" by simp
      show ?thesis
      proof (cases "8 \<le> length bs")
        case False
        with len4 magic show ?thesis by (simp add: read_header_def stream_read_def)
      next
        case True
        then have "length (take 4 (drop 4 bs)) = 4" by simp
        from version_field [OF this ver] True len4 magic show ?thesis
          by (simp add: read_header_def stream_read_def Let_def)
      qed
    qed
  qed
  then show ?thesis
    by (auto simp: decompress_file_def open_in_def)
qed

text \<open>The container of the bytes 1, 2, 3 with its tag altered from "MTZ1" to "MTZ2".\<close>

theorem decompress_rejects_bad_magic_or_version_witness:
  "decompress_file stored_codec
     (Some [0x4D, 0x54, 0x5A, 0x32, 1, 0, 0, 0, 1, 0, 0, 0, 0, 0, 0, 0,
            4, 0, 0, 0, 0, 0, 0, 0, 3, 0, 0, 0, 0, 0, 0, 0, 0x78, 1, 2, 3]) True 4 =
   \<lparr>exit_status = 1, out_file = None, diags = [InvalidHeader]\<rparr>"
  using decompress_rejects_bad_magic_or_version
    [of "[0x4D, 0x54, 0x5A, 0x32, 1, 0, 0, 0, 1, 0, 0, 0, 0, 0, 0, 0,
          4, 0, 0, 0, 0, 0, 0, 0, 3, 0, 0, 0, 0, 0, 0, 0, 0x78, 1, 2, 3]" stored_codec True 4]
  by (simp add: MAGIC_def)

subsection \<open>Runs with allocation failures\<close>

text \<open>
  Whenever the process is not terminated by an exception, its outcome is the one the
  functions without allocation failures compute.
\<close>

lemma decompress_chunk_heap_refines:
  "decompress_chunk_heap heap i cd inbuf outbuf e = Inr r \<Longrightarrow> r = decompress_chunk cd inbuf outbuf e"
  by (auto simp: decompress_chunk_heap_def decompress_chunk_def Let_def
        split: option.splits prod.splits if_splits)


lemma decompress_chunk_heap_thrown:
  "vector_alloc heap (OutBuf i) 1 (unat e) = Some x \<Longrightarrow>
   decompress_chunk_heap heap i cd inbuf outbuf e = Inl x"
  by (simp add: decompress_chunk_heap_def)

lemma read_header_heap_refines:
  "read_header_heap heap s = Inr x \<Longrightarrow> x = read_header s"
  by (auto simp: read_header_heap_def read_header_def Let_def
        split: option.splits prod.splits if_splits)

lemma read_blocks_heap_refines:
  "read_blocks_heap heap i ms s = Inr y \<Longrightarrow> y = read_blocks i ms s"
proof (induction ms arbitrary: i s y)
  case Nil
  then show ?case by simp
next
  case (Cons m ms)
  then show ?case
    by (auto split: option.splits prod.splits if_splits sum.splits)
qed

lemma run_workers_heap_refines:
  "length blks = length ms \<Longrightarrow> run_workers_heap heap cd i blks ms = Inr rs \<Longrightarrow>
   rs = map (\<lambda>(blk, m). decompress_chunk cd blk [] (original_size m)) (zip blks ms)"
proof (induction blks ms arbitrary: i rs rule: list_induct2)
  case Nil
  then show ?case by simp
next
  case (Cons blk blks m ms)
  then show ?case
    by (auto split: sum.splits dest: decompress_chunk_heap_refines)
qed


lemma run_workers_heap_thrown:
  assumes "length blks = length ms"
    and "j < length ms"
    and "vector_alloc heap (OutBuf (i + j)) 1 (unat (original_size (ms ! j))) \<noteq> None"
  shows "\<exists>e. run_workers_heap heap cd i blks ms = Inl e"
  using assms
proof (induction blks ms arbitrary: i j rule: list_induct2)
  case Nil
  then show ?case by simp
next
  case (Cons blk blks m ms)
  show ?case
  proof (cases j)
    case 0
    with Cons.prems obtain x where "vector_alloc heap (OutBuf i) 1 (unat (original_size m)) = Some x"
      by auto
    from decompress_chunk_heap_thrown [OF this] show ?thesis by simp
  next
    case (Suc k)
    with Cons.prems have "k < length ms"
      and "vector_alloc heap (OutBuf (Suc i + k)) 1 (unat (original_size (ms ! k))) \<noteq> None"
      by simp_all
    from Cons.IH [OF this] obtain e where "run_workers_heap heap cd (Suc i) blks ms = Inl e" by blast
    then show ?thesis by (simp split: sum.splits)
  qed
qed

lemma read_blocks_heap_length:
  "read_blocks_heap heap i ms s = Inr (Inr bs) \<Longrightarrow> length bs = length ms"
  using read_blocks_heap_refines [of heap i ms s "Inr bs"] read_blocks_length [of i ms s bs]
  by simp

lemma decompress_file_heap_refines:
  assumes "decompress_file_heap heap cd inpath out_ok t = Inr r"
  shows "r = decompress_file cd inpath out_ok t"
proof (cases "open_in inpath")
  case None
  with assms show ?thesis by (simp add: decompress_file_heap_def decompress_file_def)
next
  case (Some ins)
  show ?thesis
  proof (cases "read_header_heap heap ins")
    case (Inl e)
    with assms Some show ?thesis by (simp add: decompress_file_heap_def)
  next
    case hdr: (Inr x)
    then have x: "read_header ins = x" by (rule read_header_heap_refines [symmetric])
    obtain mo s1 where xs: "x = (mo, s1)" by (cases x)
    show ?thesis
    proof (cases mo)
      case None
      with assms Some hdr x xs show ?thesis
        by (simp add: decompress_file_heap_def decompress_file_def)
    next
      case (Some metas)
      note mo = this
      show ?thesis
      proof (cases "read_blocks_heap heap 0 metas s1")
        case (Inl e)
        with assms \<open>open_in inpath = Some ins\<close> hdr xs mo show ?thesis
          by (simp add: decompress_file_heap_def split: option.splits)
      next
        case blk: (Inr y)
        then have y: "read_blocks 0 metas s1 = y" by (rule read_blocks_heap_refines [symmetric])
        show ?thesis
        proof (cases y)
          case (Inl i)
          with assms \<open>open_in inpath = Some ins\<close> hdr x xs mo blk y show ?thesis
            by (simp add: decompress_file_heap_def decompress_file_def split: option.splits)
        next
          case (Inr blocks)
          with blk have len: "length blocks = length metas"
            by (simp add: read_blocks_heap_length)
          from assms \<open>open_in inpath = Some ins\<close> hdr xs mo blk Inr
          obtain results where w: "run_workers_heap heap cd 0 blocks metas = Inr results"
            by (auto simp: decompress_file_heap_def split: option.splits sum.splits)
          note rs = run_workers_heap_refines [OF len w]
          from assms \<open>open_in inpath = Some ins\<close> hdr x xs mo blk y Inr w rs show ?thesis
            by (auto simp: decompress_file_heap_def decompress_file_def Let_def
                  split: option.splits if_splits)
        qed
      qed
    qed
  qed
qed

lemma decompress_file_heap_run:
  assumes hdr: "read_header_heap heap \<lparr>rest = bs, good = True\<rparr> = Inr (Some metas, s1)"
    and tbl: "vector_alloc heap BlockTable 24 (length metas) = None"
    and blk: "read_blocks_heap heap 0 metas s1 = Inr (Inr blocks)"
    and out_tbl: "vector_alloc heap OutTable 24 (length metas) = None"
  shows "decompress_file_heap heap cd (Some bs) out_ok t =
     (case run_workers_heap heap cd 0 blocks metas of
        Inl e \<Rightarrow> Inl e
      | Inr results \<Rightarrow>
          if \<not> out_ok then
            Inr \<lparr>exit_status = 1, out_file = None,
                 diags = map DecompressionFailed
                           (filter (\<lambda>i. \<not> fst (results ! i)) [0..<length results]) @
                         [FailedOpenOutput]\<rparr>
          else
            Inr \<lparr>exit_status = 0, out_file = Some (concat (map snd results)),
                 diags = map DecompressionFailed
                           (filter (\<lambda>i. \<not> fst (results ! i)) [0..<length results])\<rparr>)"
  using assms by (simp add: decompress_file_heap_def open_in_def Let_def split: sum.splits)







text \<open>
  When instead the buffer of some chunk cannot be allocated, the process is terminated
  before the output file is opened.
\<close>

lemma decompress_aborts_if_buffer_refused:
  assumes hdr: "read_header_heap heap \<lparr>rest = bs, good = True\<rparr> = Inr (Some metas, s1)"
    and tbl: "vector_alloc heap BlockTable 24 (length metas) = None"
    and blk: "read_blocks_heap heap 0 metas s1 = Inr (Inr blocks)"
    and out_tbl: "vector_alloc heap OutTable 24 (length metas) = None"
    and j: "j < length metas"
    and refused: "vector_alloc heap (OutBuf j) 1 (unat (original_size (metas ! j))) \<noteq> None"
  shows "\<exists>e. decompress_file_heap heap cd (Some bs) out_ok t = Inl e"
proof -
  have len: "length blocks = length metas"
    using blk by (rule read_blocks_heap_length)
  from refused have "vector_alloc heap (OutBuf (0 + j)) 1 (unat (original_size (metas ! j))) \<noteq> None"
    by simp
  from run_workers_heap_thrown [OF len j this, of cd]
  obtain e where "run_workers_heap heap cd 0 blocks metas = Inl e" by blast
  then show ?thesis
    unfolding decompress_file_heap_run [OF hdr tbl blk out_tbl] by simp
qed


text \<open>
  With allocation failures in the model, a bad magic tag or version is still rejected
  before any allocation, the thread-count argument is still ignored, and a codec failure
  on an allocated buffer still ends with exit status 0.
\<close>

lemma read_header_heap_rejects:
  assumes "take 4 bs \<noteq> MAGIC \<or> take 4 (drop 4 bs) \<noteq> le_bytes 4 (unat VERSION)"
  shows "\<exists>s'. read_header_heap heap \<lparr>rest = bs, good = True\<rparr> = Inr (None, s')"
proof (cases "4 \<le> length bs")
  case False
  then show ?thesis by (simp add: read_header_heap_def stream_read_def)
next
  case len4: True
  show ?thesis
  proof (cases "take 4 bs = MAGIC")
    case False
    with len4 show ?thesis by (simp add: read_header_heap_def stream_read_def)
  next
    case magic: True
    with assms have ver: "take 4 (drop 4 bs) \<noteq> le_bytes 4 (unat VERSION)" by simp
    show ?thesis
    proof (cases "8 \<le> length bs")
      case False
      with len4 magic show ?thesis by (simp add: read_header_heap_def stream_read_def)
    next
      case True
      then have "length (take 4 (drop 4 bs)) = 4" by simp
      from version_field [OF this ver] True len4 magic show ?thesis
        by (simp add: read_header_heap_def stream_read_def Let_def)
    qed
  qed
qed

lemma decompress_file_heap_rejects:
  assumes "take 4 bs \<noteq> MAGIC \<or> take 4 (drop 4 bs) \<noteq> le_bytes 4 (unat VERSION)"
  shows "decompress_file_heap heap cd (Some bs) out_ok t =
           Inr \<lparr>exit_status = 1, out_file = None, diags = [InvalidHeader]\<rparr>"
  using read_header_heap_rejects [OF assms, of heap]
  by (auto simp: decompress_file_heap_def open_in_def)

lemma decompress_file_heap_ignores_thread_count:
  "decompress_file_heap heap cd inpath out_ok t1 = decompress_file_heap heap cd inpath out_ok t2"
  by (simp add: decompress_file_heap_def)

lemma decompress_file_heap_codec_failure:
  "decompress_file_heap generous_heap stored_codec
     (Some [0x4D, 0x54, 0x5A, 0x31, 1, 0, 0, 0, 1, 0, 0, 0, 0, 0, 0, 0,
            4, 0, 0, 0, 0, 0, 0, 0, 3, 0, 0, 0, 0, 0, 0, 0, 0, 1, 2, 3]) True 1 =
   Inr \<lparr>exit_status = 0, out_file = Some (replicate 3 0), diags = [DecompressionFailed 0]\<rparr>"
proof -
  have "decompress_file stored_codec
     (Some [0x4D, 0x54, 0x5A, 0x31, 1, 0, 0, 0, 1, 0, 0, 0, 0, 0, 0, 0,
            4, 0, 0, 0, 0, 0, 0, 0, 3, 0, 0, 0, 0, 0, 0, 0, 0, 1, 2, 3]) True 1 =
   \<lparr>exit_status = 0, out_file = Some (replicate 3 0), diags = [DecompressionFailed 0]\<rparr>"
    by (simp add: decompress_file_def open_in_def read_header_def stream_read_def MAGIC_def
        VERSION_def Let_def store_def resize_def decompress_chunk_def stored_codec_def
        Z_OK_def Z_DATA_ERROR_def)
  moreover have "\<exists>r. decompress_file_heap generous_heap stored_codec
     (Some [0x4D, 0x54, 0x5A, 0x31, 1, 0, 0, 0, 1, 0, 0, 0, 0, 0, 0, 0,
            4, 0, 0, 0, 0, 0, 0, 0, 3, 0, 0, 0, 0, 0, 0, 0, 0, 1, 2, 3]) True 1 = Inr r"
    by (simp add: decompress_file_heap_def open_in_def read_header_heap_def stream_read_def
        MAGIC_def VERSION_def Let_def store_def resize_def decompress_chunk_heap_def
        vector_alloc_def PTRDIFF_MAX_def generous_heap_def split: prod.splits)
  ultimately show ?thesis
    using decompress_file_heap_refines by metis
qed

text \<open>
  C10. \<open>decompress_file\<close> never consults its thread-count argument: any two values give
  the same outcome, output file included, also when the call goes through \<open>main\<close>.
\<close>

theorem decompress_ignores_thread_count:
  "decompress_file cd inpath out_ok t1 = decompress_file cd inpath out_ok t2 \<and>
   main cd ''d'' inpath out_ok t1 = main cd ''d'' inpath out_ok t2"
  by (simp add: decompress_file_def main_def)

section \<open>Compression: early exits\<close>

text \<open>
  C6. On an input that is missing or empty, \<open>compress_file\<close> exits with status 1 and
  opens no output file; the outcome is the same for every codec, thread count and output
  path, so no planning, chunk read or codec call contributed to it.
\<close>

theorem compress_rejects_empty_or_missing:
  "inpath = None \<or> inpath = Some [] \<Longrightarrow>
   compress_file cd inpath out_ok t =
     \<lparr>exit_status = 1, out_file = None, diags = [EmptyOrMissingInput]\<rparr>"
  by (auto simp: compress_file_def file_size_def open_in_def)

theorem compress_rejects_empty_or_missing_witness:
  "compress_file stored_codec (Some []) True 4 =
     \<lparr>exit_status = 1, out_file = None, diags = [EmptyOrMissingInput]\<rparr>"
  using compress_rejects_empty_or_missing [of "Some []" stored_codec True 4] by simp

section \<open>Word arithmetic of the planner\<close>

lemma sint_bounds32: fixes n :: i32 shows "sint n < 2 ^ 31" "- (2 ^ 31) \<le> sint n"
  using sint_lt [of n] sint_ge [of n] by simp_all

lemma unat_scast_nonneg:
  fixes n :: i32
  assumes "0 \<le> sint n"
  shows "unat (scast n :: u64) = nat (sint n)"
proof -
  have "(2::int) ^ 31 \<le> 2 ^ 64" by simp
  with sint_bounds32(1) [of n] have "sint n < 2 ^ 64" by (rule less_le_trans)
  with assms have "take_bit 64 (sint n) = sint n"
    by (rule take_bit_int_eq_self)
  moreover have "unat (scast n :: u64) = nat (take_bit 64 (sint n))"
    unfolding scast_eq unat_eq_nat_uint uint_word_of_int_eq by simp
  ultimately show ?thesis by simp
qed

lemma sint_ucast_small:
  fixes x :: u64
  assumes "unat x < 2 ^ 31"
  shows "sint (ucast x :: i32) = int (unat x)"
proof -
  have "int (unat x) < int (2 ^ 31)" using assms by (simp only: of_nat_less_iff)
  then have "int (unat x) < 2 ^ 31" by (simp del: of_nat_unat)
  then have "uint x < 2 ^ 31" by simp
  moreover have "- (2 ^ 31) \<le> uint x"
    using uint_ge_0 [of x] by (simp add: order_trans [of _ 0])
  ultimately have "signed_take_bit 31 (uint x) = uint x"
    by (intro signed_take_bit_int_eq_self)
  moreover have "sint (ucast x :: i32) = signed_take_bit 31 (uint x)"
    unfolding ucast_eq sint_sbintrunc' by simp
  ultimately show ?thesis by simp
qed

lemma unat_min: "unat (min a b) = min (unat a) (unat b)"
  by (simp add: min_def word_le_nat_alt)

lemma ceil_lt_iff: 
  assumes "0 < (I::nat)"
  shows "k < (T + I - 1) div I \<longleftrightarrow> k * I < T"
proof -
  have "k < (T + I - 1) div I \<longleftrightarrow> Suc k \<le> (T + I - 1) div I" by auto
  also have "\<dots> \<longleftrightarrow> Suc k * I \<le> T + I - 1"
    using assms by (rule less_eq_div_iff_mult_less_eq)
  also have "\<dots> \<longleftrightarrow> k * I < T" using assms by auto
  finally show ?thesis .
qed

lemma clamp_threads:
  fixes p :: i32
  shows "sint (if 1 <s p then p else 1) = max 1 (sint p)"
  by (simp add: word_sless_alt max_def)

lemma unat_add_sub1:
  fixes a b :: u64
  assumes "0 < unat b" "unat a + unat b < 18446744073709551616"
  shows "unat (a + b - 1) = unat a + unat b - 1"
proof -
  have ab: "unat (a + b) = unat a + unat b"
    using assms(2) by (simp add: unat_add_lem [THEN iffD1])
  then have "1 \<le> unat (a + b)" using assms(1) by simp
  then have "(1::u64) \<le> a + b" by (simp add: word_le_nat_alt)
  then have "unat (a + b - 1) = unat (a + b) - unat (1::u64)" by (rule unat_sub)
  with ab show ?thesis by simp
qed

lemma plan_layout_nat:
  fixes tsz :: u64 and p :: i32
  assumes pos: "0 < unat tsz" and small: "unat tsz < 9223372036854775808"
    and pl: "plan_layout tsz p = (ideal, n)"
    and n0_def: "n0 = nat (max 1 (sint p))"
    and I0_def: "I0 = (unat tsz + n0 - 1) div n0"
  shows "unat ideal = (if I0 < 65536 then min 65536 (unat tsz) else I0)"
    and "nat (sint n) = (if I0 < 65536 then (unat tsz + unat ideal - 1) div unat ideal else n0)"
    and "0 < sint n"
proof -
  define nt :: i32 where "nt = (if 1 <s p then p else 1)"
  have snt: "sint nt = max 1 (sint p)" unfolding nt_def by (rule clamp_threads)
  then have nt_pos: "0 \<le> sint nt" by simp
  have un: "unat (scast nt :: u64) = n0"
    using unat_scast_nonneg [OF nt_pos] snt by (simp add: n0_def)
  have n0_pos: "0 < n0" by (simp add: n0_def)
  have "sint nt < 2147483648" using sint_bounds32(1) [of nt] by simp
  then have n0_lt: "n0 < 2147483648" using snt by (simp add: n0_def)
  have sum: "unat (tsz + scast nt - 1) = unat tsz + n0 - 1"
    using unat_add_sub1 [of "scast nt" tsz] un n0_pos n0_lt small by simp
  define id0 :: u64 where "id0 = (tsz + scast nt - 1) div scast nt"
  have uid0: "unat id0 = I0"
    by (simp add: id0_def unat_div sum un I0_def)
  have cmp: "id0 < MIN_CHUNK \<longleftrightarrow> I0 < 65536"
    by (simp add: word_less_nat_alt uid0 MIN_CHUNK_def)
  show c1: "unat ideal = (if I0 < 65536 then min 65536 (unat tsz) else I0)"
    using pl cmp uid0 unfolding plan_layout_def nt_def [symmetric] Let_def id0_def [symmetric]
    by (auto simp: unat_min MIN_CHUNK_def split: if_splits)
  have "nat (sint n) = (if I0 < 65536 then (unat tsz + unat ideal - 1) div unat ideal else n0)
        \<and> 0 < sint n"
  proof (cases "I0 < 65536")
    case False
    with pl cmp have "n = nt"
      unfolding plan_layout_def nt_def [symmetric] Let_def id0_def [symmetric] by simp
    with False snt show ?thesis by (simp add: n0_def)
  next
    case True
    define q :: u64 where "q = (tsz + ideal - 1) div ideal"
    from True pl cmp have n: "n = (if 1 <s (ucast q :: i32) then ucast q else 1)"
      and ideal: "ideal = min MIN_CHUNK tsz"
      unfolding plan_layout_def nt_def [symmetric] Let_def id0_def [symmetric] q_def by auto
    from True c1 have ui: "unat ideal = min 65536 (unat tsz)" by simp
    with pos have ui_pos: "0 < unat ideal" by simp
    have "unat (tsz + ideal - 1) = unat tsz + unat ideal - 1"
      using unat_add_sub1 [of ideal tsz] ui_pos ui small by simp
    then have uq: "unat q = (unat tsz + unat ideal - 1) div unat ideal"
      by (simp add: q_def unat_div)
    from True have "unat tsz + n0 - 1 < 65536 * n0"
      using n0_pos by (simp add: I0_def div_less_iff_less_mult)
    then have tb: "unat tsz + n0 \<le> 65536 * n0" by simp
    have "unat q < n0 + 1"
    proof (cases "unat tsz < 65536")
      case True
      with ui have "unat ideal = unat tsz" by simp
      with uq pos have "unat q = (unat tsz + unat tsz - 1) div unat tsz" by simp
      also have "\<dots> < 2" using pos by (simp add: div_less_iff_less_mult)
      finally show ?thesis using n0_pos by simp
    next
      case False
      with ui have "unat ideal = 65536" by simp
      with uq have "unat q = (unat tsz + 65535) div 65536" by simp
      also have "\<dots> < n0 + 1" using tb n0_pos by (simp add: div_less_iff_less_mult)
      finally show ?thesis .
    qed
    with n0_lt have "unat q < 2 ^ 31" by simp
    then have sq: "sint (ucast q :: i32) = int (unat q)" by (rule sint_ucast_small)
    have "unat ideal \<le> unat tsz + unat ideal - 1" using pos by simp
    then have "1 \<le> unat q" using ui_pos unfolding uq
      by (simp add: less_eq_div_iff_mult_less_eq)
    with sq n have "sint n = int (unat q)"
      by (auto simp: word_sless_alt simp del: of_nat_unat)
    with True uq \<open>1 \<le> unat q\<close> show ?thesis by (simp del: of_nat_unat)
  qed
  then show "nat (sint n) = (if I0 < 65536 then (unat tsz + unat ideal - 1) div unat ideal else n0)"
    and "0 < sint n" by simp_all
qed

lemma ceil_mult_ge:
  assumes "0 < (b::nat)"
  shows "a \<le> ((a + b - 1) div b) * b"
  using ceil_lt_iff [OF assms, of "(a + b - 1) div b" a] by simp

lemma unat_index_mult:
  fixes ideal :: u64
  assumes "0 < unat ideal" "N * unat ideal < 18446744073709551616" "i < N"
  shows "unat (of_nat i * ideal) = i * unat ideal"
proof -
  have "i * unat ideal < N * unat ideal" using assms(1,3) by simp
  from this assms(2) have lt: "i * unat ideal < 18446744073709551616" by (rule less_trans)
  have "i * 1 \<le> i * unat ideal" using assms(1) by (intro mult_le_mono2) simp
  then have "i \<le> i * unat ideal" by (simp only: mult_1_right)
  from this lt have "i < 18446744073709551616" by (rule le_less_trans)
  then have ui: "unat (of_nat i :: u64) = i" by (simp add: unat_of_nat)
  with lt have "unat (of_nat i :: u64) * unat ideal < 2 ^ LENGTH(64)" by simp
  then have "unat (of_nat i * ideal) = unat (of_nat i :: u64) * unat ideal"
    by (simp only: unat_mult_lem)
  with ui show ?thesis by simp
qed

lemma read_chunks_stop:
  assumes "0 < unat ideal" "N * unat ideal < 18446744073709551616"
    and "N \<le> i \<or> unat tsz \<le> i * unat ideal"
  shows "read_chunks i N ideal tsz s = []"
proof (cases "i < N")
  case False
  then show ?thesis by (simp add: read_chunks.simps)
next
  case True
  with assms(3) have "unat tsz \<le> i * unat ideal" by simp
  with unat_index_mult [OF assms(1,2) True] have "tsz \<le> of_nat i * ideal"
    by (simp add: word_le_nat_alt)
  then show ?thesis by (simp add: read_chunks.simps Let_def)
qed

lemma read_chunks_step:
  assumes "0 < unat ideal" "N * unat ideal < 18446744073709551616"
    and "i < N" "i * unat ideal < unat tsz"
  shows "\<exists>st sz. unat st = i * unat ideal \<and>
           unat sz = min (unat ideal) (unat tsz - i * unat ideal) \<and>
           read_chunks i N ideal tsz s =
             \<lparr>start = st, orig_size = sz,
              bytes = store (resize (unat sz) []) (fst (snd (stream_read s (unat sz))))\<rparr>
             # read_chunks (Suc i) N ideal tsz (snd (snd (stream_read s (unat sz))))"
proof -
  define st where "st = of_nat i * ideal"
  define sz where "sz = min ideal (tsz - st)"
  have ust: "unat st = i * unat ideal"
    unfolding st_def by (rule unat_index_mult [OF assms(1,2,3)])
  with assms(4) have lt: "\<not> tsz \<le> st" by (simp add: word_le_nat_alt)
  then have "st \<le> tsz" by simp
  then have "unat (tsz - st) = unat tsz - unat st" by (rule unat_sub)
  with ust have usz: "unat sz = min (unat ideal) (unat tsz - i * unat ideal)"
    by (simp add: sz_def unat_min)
  have "read_chunks i N ideal tsz s =
          \<lparr>start = st, orig_size = sz,
              bytes = store (resize (unat sz) []) (fst (snd (stream_read s (unat sz))))\<rparr>
             # read_chunks (Suc i) N ideal tsz (snd (snd (stream_read s (unat sz))))"
    using assms(3) lt
    by (subst read_chunks.simps)
       (simp add: Let_def st_def [symmetric] sz_def [symmetric] split: prod.splits)
  with ust usz show ?thesis by blast
qed

lemma read_chunks_ranges:
  assumes "0 < unat ideal" "N * unat ideal < 18446744073709551616"
  shows "map (\<lambda>c. (unat (start c), unat (orig_size c))) (read_chunks i N ideal tsz s) =
         map (\<lambda>k. (k * unat ideal, min (unat ideal) (unat tsz - k * unat ideal)))
           [i ..< min N ((unat tsz + unat ideal - 1) div unat ideal)]"
proof (induction "N - i" arbitrary: i s)
  case 0
  then have "N \<le> i" by simp
  with read_chunks_stop [OF assms] show ?case by simp
next
  case (Suc d)
  then have iN: "i < N" by simp
  show ?case
  proof (cases "i * unat ideal < unat tsz")
    case False
    then have "\<not> i < (unat tsz + unat ideal - 1) div unat ideal"
      using ceil_lt_iff [OF assms(1)] by simp
    moreover from False have "read_chunks i N ideal tsz s = []"
      by (intro read_chunks_stop [OF assms]) simp
    ultimately show ?thesis by simp
  next
    case True
    then have "i < (unat tsz + unat ideal - 1) div unat ideal"
      using ceil_lt_iff [OF assms(1)] by simp
    with iN have upt: "[i ..< min N ((unat tsz + unat ideal - 1) div unat ideal)] =
        i # [Suc i ..< min N ((unat tsz + unat ideal - 1) div unat ideal)]"
      by (simp add: upt_conv_Cons)
    from Suc(2) have d: "d = N - Suc i" by simp
    from read_chunks_step [OF assms iN True, of s] obtain st sz where
      "unat st = i * unat ideal"
      "unat sz = min (unat ideal) (unat tsz - i * unat ideal)"
      "read_chunks i N ideal tsz s =
             \<lparr>start = st, orig_size = sz,
              bytes = store (resize (unat sz) []) (fst (snd (stream_read s (unat sz))))\<rparr>
             # read_chunks (Suc i) N ideal tsz (snd (snd (stream_read s (unat sz))))"
      by blast
    then show ?thesis
      unfolding upt using Suc(1) [OF d] by simp
  qed
qed

lemma read_chunks_bytes:
  assumes "0 < unat ideal" "N * unat ideal < 18446744073709551616"
    and "length B = unat tsz"
    and "good s" "rest s = drop (i * unat ideal) B"
  shows "map bytes (read_chunks i N ideal tsz s) =
         map (\<lambda>k. take (unat ideal) (drop (k * unat ideal) B))
           [i ..< min N ((unat tsz + unat ideal - 1) div unat ideal)]"
  using assms(4,5)
proof (induction "N - i" arbitrary: i s)
  case 0
  then have "N \<le> i" by simp
  with read_chunks_stop [OF assms(1,2)] show ?case by simp
next
  case (Suc d)
  then have iN: "i < N" by simp
  show ?case
  proof (cases "i * unat ideal < unat tsz")
    case False
    then have "\<not> i < (unat tsz + unat ideal - 1) div unat ideal"
      using ceil_lt_iff [OF assms(1)] by simp
    moreover from False have "read_chunks i N ideal tsz s = []"
      by (intro read_chunks_stop [OF assms(1,2)]) simp
    ultimately show ?thesis by simp
  next
    case True
    then have "i < (unat tsz + unat ideal - 1) div unat ideal"
      using ceil_lt_iff [OF assms(1)] by simp
    with iN have upt: "[i ..< min N ((unat tsz + unat ideal - 1) div unat ideal)] =
        i # [Suc i ..< min N ((unat tsz + unat ideal - 1) div unat ideal)]"
      by (simp add: upt_conv_Cons)
    from Suc(2) have d: "d = N - Suc i" by simp
    from read_chunks_step [OF assms(1,2) iN True, of s] obtain st sz where
      st: "unat st = i * unat ideal" and
      sz: "unat sz = min (unat ideal) (unat tsz - i * unat ideal)" and
      rc: "read_chunks i N ideal tsz s =
             \<lparr>start = st, orig_size = sz,
              bytes = store (resize (unat sz) []) (fst (snd (stream_read s (unat sz))))\<rparr>
             # read_chunks (Suc i) N ideal tsz (snd (snd (stream_read s (unat sz))))"
      by blast
    have len: "length (rest s) = unat tsz - i * unat ideal"
      using Suc.prems(2) assms(3) by simp
    with sz have fits: "unat sz \<le> length (rest s)" by simp
    then have rd: "stream_read s (unat sz) =
        (True, take (unat sz) (rest s), s\<lparr>rest := drop (unat sz) (rest s)\<rparr>)"
      using Suc.prems(1) by (simp add: stream_read_def)
    have got: "store (resize (unat sz) []) (take (unat sz) (rest s)) = take (unat ideal) (drop (i * unat ideal) B)"
      using fits sz len Suc.prems(2)
      by (simp add: store_def resize_def min_def split: if_splits)
    have nxt: "drop (unat sz) (rest s) = drop (Suc i * unat ideal) B"
    proof (cases "unat ideal \<le> unat tsz - i * unat ideal")
      case True
      with sz have "unat sz = unat ideal" by simp
      then show ?thesis using Suc.prems(2) by (simp add: add.commute)
    next
      case False
      with sz len have "unat sz = length (rest s)" by simp
      moreover from False assms(3) have "length B \<le> Suc i * unat ideal" by simp
      ultimately show ?thesis by simp
    qed
    have "map bytes (read_chunks (Suc i) N ideal tsz (s\<lparr>rest := drop (unat sz) (rest s)\<rparr>)) =
         map (\<lambda>k. take (unat ideal) (drop (k * unat ideal) B))
           [Suc i ..< min N ((unat tsz + unat ideal - 1) div unat ideal)]"
      using Suc(1) [OF d, of "s\<lparr>rest := drop (unat sz) (rest s)\<rparr>"] Suc.prems(1) nxt by simp
    then show ?thesis
      unfolding upt by (simp add: rc rd got)
  qed
qed

lemma concat_slices:
  assumes "0 < (I::nat)"
  shows "concat (map (\<lambda>k. take I (drop (k * I) B)) [0 ..< m]) = take (m * I) B"
proof (induction m)
  case 0
  then show ?case by simp
next
  case (Suc m)
  have "take (m * I + I) B = take (m * I) B @ take I (drop (m * I) B)"
    by (rule take_add)
  with Suc show ?case by (simp add: add.commute)
qed

section \<open>The chunk table partitions the input\<close>

lemma ceil_div_eq:
  assumes "0 < b"
  shows "ceil_div a b = (a + b - 1) div b"
proof -
  define q where "q = a div b"
  define r where "r = a mod b"
  have a: "a = r + q * b" by (simp add: q_def r_def)
  have rb: "r < b" using assms by (simp add: r_def)
  show ?thesis
  proof (cases "r = 0")
    case True
    with a assms have "a + b - 1 = (b - 1) + q * b" by simp
    moreover have "((b - 1) + q * b) div b = q + (b - 1) div b"
      using assms by (intro div_mult_self1) simp
    moreover have "(b - 1) div b = 0" using assms by simp
    ultimately have "(a + b - 1) div b = q" by simp
    with True show ?thesis by (simp add: ceil_div_def q_def r_def)
  next
    case False
    with a have "a + b - 1 = (r - 1) + (q + 1) * b" by simp
    moreover have "((r - 1) + (q + 1) * b) div b = (q + 1) + (r - 1) div b"
      using assms by (intro div_mult_self1) simp
    moreover have "(r - 1) div b = 0" using rb by simp
    ultimately have "(a + b - 1) div b = q + 1" by simp
    with False show ?thesis by (simp add: ceil_div_def q_def r_def)
  qed
qed

lemma partitions_closed:
  assumes "0 < (I::nat)" "i < (T + I - 1) div I"
  shows "partitions_from (i * I) (map (\<lambda>k. (k * I, min I (T - k * I))) [i ..< (T + I - 1) div I]) T"
  using assms(2)
proof (induction "(T + I - 1) div I - i" arbitrary: i)
  case 0
  then show ?case by simp
next
  case (Suc d)
  define m where "m = (T + I - 1) div I"
  from Suc.prems have im: "i < m" by (simp add: m_def)
  then have lt: "i * I < T" using ceil_lt_iff [OF assms(1), of i T] by (simp add: m_def)
  have upt: "[i ..< m] = i # [Suc i ..< m]" using im by (simp add: upt_conv_Cons)
  show ?case
  proof (cases "Suc i < m")
    case True
    then have "Suc i * I < T" using ceil_lt_iff [OF assms(1), of "Suc i" T] by (simp add: m_def)
    then have sz: "min I (T - i * I) = I" by simp
    from Suc(2) have "d = m - Suc i" by (simp add: m_def)
    from Suc(1) [OF this [unfolded m_def] True [unfolded m_def]]
    have "partitions_from (Suc i * I) (map (\<lambda>k. (k * I, min I (T - k * I))) [Suc i ..< m]) T"
      by (simp add: m_def)
    with lt assms(1) sz show ?thesis
      unfolding m_def [symmetric] upt by (simp add: add.commute)
  next
    case False
    with im have last: "Suc i = m" by simp
    then have "\<not> Suc i * I < T" using ceil_lt_iff [OF assms(1), of "Suc i" T] by (simp add: m_def)
    then have sz: "min I (T - i * I) = T - i * I" by simp
    from last have e: "[Suc i ..< m] = []" by simp
    from lt sz show ?thesis
      unfolding m_def [symmetric] upt e by simp
  qed
qed

lemma planned_facts:
  fixes tsz :: u64 and p :: i32
  assumes pos: "0 < unat tsz" and small: "unat tsz < 9223372036854775808"
    and pl: "plan_layout tsz p = (ideal, n)"
  shows "0 < unat ideal"
    and "nat (sint n) * unat ideal < 18446744073709551616"
    and "(unat tsz + unat ideal - 1) div unat ideal \<le> nat (sint n)"
proof -
  define n0 where "n0 = nat (max 1 (sint p))"
  define I0 where "I0 = (unat tsz + n0 - 1) div n0"
  note facts = plan_layout_nat [OF pos small pl n0_def I0_def]
  have n0_pos: "0 < n0" by (simp add: n0_def)
  have "sint p < 2147483648" using sint_bounds32(1) [of p] by simp
  then have n0_lt: "n0 < 2147483648" by (simp add: n0_def)
  have I0_pos: "0 < I0"
    using pos n0_pos ceil_lt_iff [OF n0_pos, of 0 "unat tsz"] by (simp add: I0_def)
  show ipos: "0 < unat ideal"
    using facts(1) pos I0_pos by (simp split: if_splits)
  have prod: "nat (sint n) * unat ideal \<le> unat tsz + max n0 (unat ideal) - 1 \<and> unat ideal < 9223372036854775808"
  proof (cases "I0 < 65536")
    case True
    with facts have nn: "nat (sint n) = (unat tsz + unat ideal - 1) div unat ideal"
      and ii: "unat ideal = min 65536 (unat tsz)" by simp_all
    have "(unat tsz + unat ideal - 1) div unat ideal * unat ideal \<le> unat tsz + unat ideal - 1"
      by (rule div_times_less_eq_dividend)
    also have "\<dots> \<le> unat tsz + max n0 (unat ideal) - 1" by simp
    finally have "nat (sint n) * unat ideal \<le> unat tsz + max n0 (unat ideal) - 1"
      by (simp only: nn)
    moreover from ii have "unat ideal < 9223372036854775808" by simp
    ultimately show ?thesis by simp
  next
    case False
    with facts have "nat (sint n) = n0" "unat ideal = I0" by simp_all
    moreover have "I0 * n0 \<le> unat tsz + n0 - 1" by (simp add: I0_def)
    moreover have "I0 \<le> unat tsz"
    proof -
      have "\<not> unat tsz * n0 < unat tsz" using n0_pos by simp
      then have "\<not> unat tsz < I0"
        unfolding I0_def using ceil_lt_iff [OF n0_pos, of "unat tsz" "unat tsz"] by simp
      then show ?thesis by simp
    qed
    ultimately show ?thesis using small by (simp add: mult.commute)
  qed
  show "nat (sint n) * unat ideal < 18446744073709551616"
  proof -
    define x where "x = nat (sint n) * unat ideal"
    from prod have "x \<le> unat tsz + max n0 (unat ideal) - 1"
      and "unat ideal < 9223372036854775808" by (simp_all add: x_def)
    with small n0_lt have "x < 18446744073709551616" by arith
    then show ?thesis by (simp add: x_def)
  qed
  show "(unat tsz + unat ideal - 1) div unat ideal \<le> nat (sint n)"
  proof (cases "I0 < 65536")
    case True
    with facts show ?thesis by simp
  next
    case False
    with facts have eq: "nat (sint n) = n0" "unat ideal = I0" by simp_all
    have "unat tsz \<le> I0 * n0" unfolding I0_def by (rule ceil_mult_ge [OF n0_pos])
    then have "\<not> n0 * I0 < unat tsz" by (simp add: mult.commute)
    then have "\<not> n0 < (unat tsz + I0 - 1) div I0"
      using ceil_lt_iff [OF I0_pos, of n0 "unat tsz"] by simp
    with eq show ?thesis by simp
  qed
qed

lemma planned_ranges:
  fixes tsz :: u64 and p :: i32
  assumes pos: "0 < unat tsz" and small: "unat tsz < 9223372036854775808"
    and pl: "plan_layout tsz p = (ideal, n)"
  shows "ranges (planned_slots tsz p s) =
           map (\<lambda>k. (k * unat ideal, min (unat ideal) (unat tsz - k * unat ideal)))
             [0 ..< (unat tsz + unat ideal - 1) div unat ideal]"
    and "0 < (unat tsz + unat ideal - 1) div unat ideal"
proof -
  note f = planned_facts [OF pos small pl]
  from f(3) have "min (nat (sint n)) ((unat tsz + unat ideal - 1) div unat ideal) =
      (unat tsz + unat ideal - 1) div unat ideal" by simp
  with read_chunks_ranges [OF f(1,2), of 0 tsz s]
  show "ranges (planned_slots tsz p s) =
           map (\<lambda>k. (k * unat ideal, min (unat ideal) (unat tsz - k * unat ideal)))
             [0 ..< (unat tsz + unat ideal - 1) div unat ideal]"
    by (simp add: ranges_def planned_slots_def pl)
  show "0 < (unat tsz + unat ideal - 1) div unat ideal"
    using ceil_lt_iff [OF f(1), of 0 "unat tsz"] pos by simp
qed

text \<open>
  C2. For a file size \<open>total_size > 0\<close> (below \<open>2^63\<close>, the range of a stream offset) and
  any requested parallelism, the ranges of the chunk table partition \<open>[0, total_size)\<close>:
  they are consecutive in index order, each non-empty, the \<open>k\<close>-th starting at \<open>k\<close> strides,
  before \<open>total_size\<close>, and ending at or before \<open>total_size\<close>; there is at least one; none
  is longer than the stride and every one but the last is exactly one stride long.
\<close>

theorem chunk_ranges_partition:
  assumes "0 < unat total_size" and "unat total_size < 2 ^ 63"
  shows "let rs = ranges (planned_slots total_size p s);
             stride = unat (fst (plan_layout total_size p));
             T = unat total_size
         in partitions_from 0 rs T \<and> 1 \<le> length rs \<and>
            (\<forall>k<length rs.
               fst (rs ! k) = k * stride \<and> fst (rs ! k) < T \<and>
               fst (rs ! k) + snd (rs ! k) \<le> T \<and>
               0 < snd (rs ! k) \<and> snd (rs ! k) \<le> stride \<and>
               (Suc k < length rs \<longrightarrow> snd (rs ! k) = stride))"
proof -
  obtain ideal n where pl: "plan_layout total_size p = (ideal, n)"
    by (cases "plan_layout total_size p")
  define I where "I = unat ideal"
  define T where "T = unat total_size"
  define m where "m = (T + I - 1) div I"
  from assms(2) have small: "unat total_size < 9223372036854775808" by simp
  note f = planned_facts [OF assms(1) small pl, folded I_def T_def]
  note r = planned_ranges(1) [OF assms(1) small pl, of s, folded I_def T_def, folded m_def]
    planned_ranges(2) [OF assms(1) small pl, folded I_def T_def, folded m_def]
  have part: "partitions_from 0 (ranges (planned_slots total_size p s)) T"
    using partitions_closed [OF f(1), of 0 T] r(2) unfolding r(1) m_def by simp
  have len: "length (ranges (planned_slots total_size p s)) = m"
    unfolding r(1) by simp
  have each: "fst (ranges (planned_slots total_size p s) ! k) = k * I \<and>
      fst (ranges (planned_slots total_size p s) ! k) < T \<and>
      fst (ranges (planned_slots total_size p s) ! k) + snd (ranges (planned_slots total_size p s) ! k) \<le> T \<and>
      0 < snd (ranges (planned_slots total_size p s) ! k) \<and>
      snd (ranges (planned_slots total_size p s) ! k) \<le> I \<and>
      (Suc k < m \<longrightarrow> snd (ranges (planned_slots total_size p s) ! k) = I)" if k: "k < m" for k
  proof -
    from k have lt: "k * I < T" using ceil_lt_iff [OF f(1), of k T] by (simp add: m_def)
    have nth: "ranges (planned_slots total_size p s) ! k = (k * I, min I (T - k * I))"
      unfolding r(1) using k by simp
    have "Suc k < m \<Longrightarrow> min I (T - k * I) = I"
    proof -
      assume "Suc k < m"
      then have "Suc k * I < T" using ceil_lt_iff [OF f(1), of "Suc k" T] by (simp add: m_def)
      then show ?thesis by simp
    qed
    with lt f(1) show ?thesis unfolding nth by auto
  qed
  have "1 \<le> m" using r(2) by simp
  with part each show ?thesis
    unfolding Let_def pl fst_conv I_def [symmetric] T_def [symmetric] len
    by blast
qed

text \<open>
  C3. For a file size \<open>total_size > 0\<close> (below \<open>2^63\<close>) and requested parallelism \<open>p\<close>,
  clamped to at least 1, the planner's \<open>ideal_chunk\<close> is the specification's:
  \<open>ceil(total_size / p)\<close>, and when that is below 64 KiB, \<open>min(64 KiB, total_size)\<close>, in
  which case \<open>nthreads\<close> and the number of chunks are \<open>ceil(total_size / ideal_chunk)\<close>.
  An input smaller than 64 KiB gives exactly one chunk, the range \<open>[0, total_size)\<close>.
\<close>

theorem planner_min_chunk_floor:
  assumes "0 < unat total_size" and "unat total_size < 2 ^ 63"
  shows "let T = unat total_size;
             p' = nat (max 1 (sint p));
             ideal_chunk = unat (fst (plan_layout total_size p));
             nthreads = nat (sint (snd (plan_layout total_size p)));
             slots = planned_slots total_size p s
         in ideal_chunk = spec_ideal_chunk T (sint p) \<and>
            (ceil_div T p' < 64 * 1024 \<longrightarrow>
               ideal_chunk = min (64 * 1024) T \<and>
               nthreads = ceil_div T ideal_chunk \<and>
               length slots = ceil_div T ideal_chunk) \<and>
            (\<not> ceil_div T p' < 64 * 1024 \<longrightarrow> ideal_chunk = ceil_div T p') \<and>
            (T < 64 * 1024 \<longrightarrow> length slots = 1 \<and> ranges slots = [(0, T)])"
proof -
  obtain ideal n where pl: "plan_layout total_size p = (ideal, n)"
    by (cases "plan_layout total_size p")
  define I where "I = unat ideal"
  define T where "T = unat total_size"
  define n0 where "n0 = nat (max 1 (sint p))"
  define I0 where "I0 = (T + n0 - 1) div n0"
  define m where "m = (T + I - 1) div I"
  from assms(2) have small: "unat total_size < 9223372036854775808" by simp
  have n0_pos: "0 < n0" by (simp add: n0_def)
  have pos: "0 < T" using assms(1) by (simp add: T_def)
  note f = planned_facts [OF assms(1) small pl, folded I_def T_def]
  note r = planned_ranges(1) [OF assms(1) small pl, of s, folded I_def T_def, folded m_def]
    planned_ranges(2) [OF assms(1) small pl, folded I_def T_def, folded m_def]
  note l = plan_layout_nat [OF assms(1) small pl n0_def I0_def [unfolded T_def], folded I_def T_def]
  have c0: "ceil_div T n0 = I0" unfolding I0_def by (rule ceil_div_eq [OF n0_pos])
  have cm: "ceil_div T I = m" unfolding m_def by (rule ceil_div_eq [OF f(1)])
  have len: "length (planned_slots total_size p s) = m"
    using arg_cong [OF r(1), of length] by (simp add: ranges_def)
  have ideal: "I = spec_ideal_chunk T (sint p)"
    using l(1) c0 by (simp add: spec_ideal_chunk_def Let_def n0_def)
  have floor: "I = min 65536 T \<and> nat (sint n) = m \<and> length (planned_slots total_size p s) = m"
    if "I0 < 65536"
    using that l(1,2) len by (simp add: m_def)
  have nofloor: "I = I0" if "\<not> I0 < 65536"
    using that l(1) by simp
  have tiny: "length (planned_slots total_size p s) = 1 \<and> ranges (planned_slots total_size p s) = [(0, T)]"
    if t: "T < 65536"
  proof -
    have "\<not> T * n0 < T" using n0_pos by simp
    then have "\<not> T < I0"
      unfolding I0_def using ceil_lt_iff [OF n0_pos, of T T] by simp
    with t have "I0 < 65536" by simp
    with l(1) t have IT: "I = T" by simp
    have "\<not> 1 * I < T" using IT by simp
    then have "\<not> 1 < m" unfolding m_def using ceil_lt_iff [OF f(1), of 1 T] by simp
    with r(2) have m1: "m = 1" by simp
    with len r(1) IT show ?thesis by simp
  qed
  have B: "ceil_div T n0 < 64 * 1024 \<longrightarrow>
      I = min (64 * 1024) T \<and> nat (sint n) = ceil_div T I \<and>
      length (planned_slots total_size p s) = ceil_div T I"
  proof
    assume "ceil_div T n0 < 64 * 1024"
    then have "I0 < 65536" by (simp add: c0)
    from floor [OF this] show "I = min (64 * 1024) T \<and> nat (sint n) = ceil_div T I \<and>
      length (planned_slots total_size p s) = ceil_div T I"
      unfolding cm by simp
  qed
  have C: "\<not> ceil_div T n0 < 64 * 1024 \<longrightarrow> I = ceil_div T n0"
    using nofloor by (simp add: c0)
  have D: "T < 64 * 1024 \<longrightarrow>
      length (planned_slots total_size p s) = 1 \<and> ranges (planned_slots total_size p s) = [(0, T)]"
    using tiny by simp
  from ideal B C D show ?thesis
    unfolding Let_def pl fst_conv snd_conv I_def [symmetric] T_def [symmetric] n0_def [symmetric]
    by blast
qed

text \<open>A 10,000,000-byte input at parallelism 4.\<close>

theorem chunk_ranges_partition_witness:
  "partitions_from 0 (ranges (planned_slots 10000000 4 \<lparr>rest = [], good = True\<rparr>)) 10000000 \<and>
   1 \<le> length (ranges (planned_slots 10000000 4 \<lparr>rest = [], good = True\<rparr>))"
  using chunk_ranges_partition [of 10000000 4 "\<lparr>rest = [], good = True\<rparr>"]
  by (simp add: Let_def)

text \<open>A 10,000-byte input at parallelism 8, and a 1-byte input at parallelism 16.\<close>

theorem planner_min_chunk_floor_witness:
  "length (planned_slots 10000 8 \<lparr>rest = [], good = True\<rparr>) = 1 \<and>
   ranges (planned_slots 1 16 \<lparr>rest = [], good = True\<rparr>) = [(0, 1)]"
  using planner_min_chunk_floor [of 10000 8 "\<lparr>rest = [], good = True\<rparr>"]
    planner_min_chunk_floor [of 1 16 "\<lparr>rest = [], good = True\<rparr>"]
  by (simp add: Let_def)

section \<open>Round trip\<close>

lemma store_fresh:
  assumes "length c \<le> b"
  shows "store (resize b []) c = c @ replicate (b - length c) 0"
  using assms by (simp add: store_def resize_def)

lemma store_exact: "store (resize (length x) []) x = x"
  by (simp add: store_def resize_def)

lemma contract_compress:
  assumes "codec_roundtrip cd" "x \<noteq> []" "length x < 2 ^ 63"
  shows "\<exists>c. compress_task cd x =
            (True, c, \<lparr>compressed_size = of_nat (length c), original_size = of_nat (length x)\<rparr>)
          \<and> unat (of_nat (length c) :: u64) = length c
          \<and> decompress_chunk cd c [] (of_nat (length x)) = (True, x)"
proof -
  define bound where "bound = compressBound cd (of_nat (length x))"
  obtain ret c where cc: "compress2 cd bound x Z_BEST_COMPRESSION = (ret, c)"
    by (cases "compress2 cd bound x Z_BEST_COMPRESSION")
  from assms have "let b = compressBound cd (of_nat (length x));
        (ret, c) = compress2 cd b x Z_BEST_COMPRESSION
      in ret = Z_OK \<and> length c \<le> unat b \<and>
         uncompress cd (of_nat (length x)) c = (Z_OK, x)"
    unfolding codec_roundtrip_def by blast
  with cc have ok: "ret = Z_OK" and fits: "length c \<le> unat bound"
    and un: "uncompress cd (of_nat (length x)) c = (Z_OK, x)"
    by (simp_all add: Let_def bound_def)
  from fits have uc: "unat (of_nat (length c) :: u64) = length c" by (rule le_unat_uoi)
  have "compress_chunk cd x [] Z_BEST_COMPRESSION = (True, c)"
    using cc ok fits uc
    by (simp add: compress_chunk_def Let_def bound_def [symmetric] store_fresh)
       (simp add: resize_def)
  then have task: "compress_task cd x =
      (True, c, \<lparr>compressed_size = of_nat (length c), original_size = of_nat (length x)\<rparr>)"
    by (simp add: compress_task_def)
  have "length x < 2 ^ 64" using assms(3) by (rule less_trans) simp
  then have ux: "unat (of_nat (length x) :: u64) = length x" by (simp add: unat_of_nat)
  have "decompress_chunk cd c [] (of_nat (length x)) = (True, x)"
    using un ux by (simp add: decompress_chunk_def Let_def store_exact)
  with task uc show ?thesis by blast
qed

lemma stream_read_append:
  "stream_read \<lparr>rest = a @ b, good = True\<rparr> (length a) = (True, a, \<lparr>rest = b, good = True\<rparr>)"
  by (simp add: stream_read_def)

lemma le_word64: "(of_nat (le_nat (le_bytes 8 (unat (w::u64)))) :: u64) = w"
proof -
  have "unat w < 2 ^ 64" using unsigned_less [of w] by simp
  then have "unat w mod 256 ^ 8 = unat w" by simp
  then show ?thesis by (simp only: le_nat_le_bytes) simp
qed

lemma le_word32: "(of_nat (le_nat (le_bytes 4 (unat (w::u32)))) :: u32) = w"
proof -
  have "unat w < 2 ^ 32" using unsigned_less [of w] by simp
  then have "unat w mod 256 ^ 4 = unat w" by simp
  then show ?thesis by (simp only: le_nat_le_bytes) simp
qed

lemma stream_read_le_bytes:
  "stream_read \<lparr>rest = le_bytes n x @ b, good = True\<rparr> n =
     (True, le_bytes n x, \<lparr>rest = b, good = True\<rparr>)"
  using stream_read_append [of "le_bytes n x" b] by simp

lemma read_metas_written:
  "read_metas (length ms) \<lparr>rest = concat (map write_meta ms) @ tail, good = True\<rparr> =
     (Some ms, \<lparr>rest = tail, good = True\<rparr>)"
proof (induction ms)
  case Nil
  then show ?case by simp
next
  case (Cons m ms)
  then show ?case
    by (simp add: write_meta_def stream_read_le_bytes le_word64 del: le_bytes.simps)
qed

lemma read_header_written:
  assumes "length ms < 2 ^ 64"
  shows "read_header \<lparr>rest = write_header ms @ tail, good = True\<rparr> =
           (Some ms, \<lparr>rest = tail, good = True\<rparr>)"
proof -
  have m: "stream_read \<lparr>rest = MAGIC @ b, good = True\<rparr> 4 = (True, MAGIC, \<lparr>rest = b, good = True\<rparr>)" for b
    by (simp add: stream_read_def MAGIC_def)
  have cnt: "unat (of_nat (length ms) :: u64) = length ms"
    using assms by (simp add: unat_of_nat)
  show ?thesis
    using cnt le_word64 [of "of_nat (length ms)"]
    by (simp add: read_header_def write_header_def Let_def m stream_read_le_bytes le_word32
          read_metas_written del: le_bytes.simps)
qed

lemma read_blocks_written:
  assumes "map (\<lambda>m. unat (compressed_size m)) ms = map length cs"
  shows "read_blocks i ms \<lparr>rest = concat cs @ tail, good = True\<rparr> = Inr cs"
  using assms
proof (induction ms arbitrary: i cs)
  case Nil
  then show ?case by simp
next
  case (Cons m ms)
  then obtain c cs' where cs: "cs = c # cs'" by (cases cs) auto
  with Cons.prems have len: "unat (compressed_size m) = length c"
    and rest: "map (\<lambda>m. unat (compressed_size m)) ms = map length cs'" by simp_all
  show ?case
    using Cons.IH [OF rest, of "i + 1"] stream_read_append [of c "concat cs' @ tail"]
    by (simp add: cs len store_exact)
qed

lemma no_failures:
  assumes "\<forall>d\<in>set ds. fst d"
  shows "filter (\<lambda>i. \<not> fst (ds ! i)) [0..<length ds] = []"
  using assms by (simp add: filter_empty_conv)

lemma pipeline_roundtrip:
  assumes rt: "codec_roundtrip cd"
    and chunks: "\<And>x. x \<in> set chunks \<Longrightarrow> x \<noteq> [] \<and> length x < 2 ^ 63"
    and count: "length chunks < 2 ^ 64"
  defines "finished \<equiv> map (compress_task cd) chunks"
  shows "\<forall>d\<in>set finished. fst d"
    and "decompress_file cd
           (Some (write_header (map (\<lambda>(ok, out, m). m) finished) @
                  concat (map (\<lambda>(ok, out, m). out) finished))) True t =
         \<lparr>exit_status = 0, out_file = Some (concat chunks), diags = []\<rparr>"
proof -
  define c where "c x = fst (snd (compress_task cd x))" for x
  define meta where "meta x =
    \<lparr>compressed_size = of_nat (length (c x)), original_size = of_nat (length x)\<rparr>" for x :: "byte list"
  have each: "compress_task cd x = (True, c x, meta x) \<and>
      unat (of_nat (length (c x)) :: u64) = length (c x) \<and>
      decompress_chunk cd (c x) [] (of_nat (length x)) = (True, x)"
    if "x \<in> set chunks" for x
  proof -
    from chunks [OF that] have "x \<noteq> []" "length x < 2 ^ 63" by simp_all
    from contract_compress [OF rt this] show ?thesis
      by (auto simp: c_def meta_def)
  qed
  have fin: "finished = map (\<lambda>x. (True, c x, meta x)) chunks"
    unfolding finished_def using each by (intro map_cong) simp_all
  show "\<forall>d\<in>set finished. fst d" by (auto simp: fin)
  have metas: "map (\<lambda>(ok, out, m). m) finished = map meta chunks"
    and outs: "map (\<lambda>(ok, out, m). out) finished = map c chunks"
    by (simp_all add: fin comp_def)
  have lens: "map (\<lambda>m. unat (compressed_size m)) (map meta chunks) = map length (map c chunks)"
    using each by (simp add: meta_def)
  have cnt: "length (map meta chunks) < 2 ^ 64" using count by simp
  have hdr: "read_header \<lparr>rest = write_header (map meta chunks) @ concat (map c chunks), good = True\<rparr> =
      (Some (map meta chunks), \<lparr>rest = concat (map c chunks), good = True\<rparr>)"
    by (rule read_header_written [OF cnt])
  have blk: "read_blocks 0 (map meta chunks) \<lparr>rest = concat (map c chunks), good = True\<rparr> =
      Inr (map c chunks)"
    using read_blocks_written [OF lens, of 0 "[]"] by simp
  have dec: "map (\<lambda>(blk, m). decompress_chunk cd blk [] (original_size m))
               (zip (map c chunks) (map meta chunks)) = map (\<lambda>x. (True, x)) chunks"
  proof -
    have "zip (map c chunks) (map meta chunks) = map (\<lambda>x. (c x, meta x)) chunks"
      by (induction chunks) simp_all
    moreover have "map (\<lambda>x. decompress_chunk cd (c x) [] (original_size (meta x))) chunks =
        map (\<lambda>x. (True, x)) chunks"
      using each by (intro map_cong) (simp_all add: meta_def)
    ultimately show ?thesis by (simp add: comp_def)
  qed
  have nf: "filter (\<lambda>i. \<not> fst (map (\<lambda>x. (True, x)) chunks ! i)) [0..<length chunks] = []"
    using no_failures [of "map (\<lambda>x. (True, x)) chunks"] by simp
  show "decompress_file cd
           (Some (write_header (map (\<lambda>(ok, out, m). m) finished) @
                  concat (map (\<lambda>(ok, out, m). out) finished))) True t =
         \<lparr>exit_status = 0, out_file = Some (concat chunks), diags = []\<rparr>"
    unfolding metas outs
    by (simp add: decompress_file_def open_in_def hdr blk dec Let_def nf comp_def)
qed

lemma planned_chunks:
  assumes "B \<noteq> []" and small: "length B < 9223372036854775808"
  shows "concat (map bytes (planned_slots (of_nat (length B)) p \<lparr>rest = B, good = True\<rparr>)) = B"
    and "\<And>x. x \<in> set (map bytes (planned_slots (of_nat (length B)) p \<lparr>rest = B, good = True\<rparr>))
           \<Longrightarrow> x \<noteq> [] \<and> length x \<le> length B"
    and "length (map bytes (planned_slots (of_nat (length B)) p \<lparr>rest = B, good = True\<rparr>)) \<le> length B"
proof -
  define tsz :: u64 where "tsz = of_nat (length B)"
  obtain ideal n where pl: "plan_layout tsz p = (ideal, n)"
    by (cases "plan_layout tsz p")
  have T: "unat tsz = length B" using small by (simp add: tsz_def unat_of_nat)
  with assms(1) have pos: "0 < unat tsz" by simp
  from T small have sm: "unat tsz < 9223372036854775808" by simp
  note f = planned_facts [OF pos sm pl]
  define I where "I = unat ideal"
  define m where "m = (length B + I - 1) div I"
  have Ipos: "0 < I" using f(1) by (simp add: I_def)
  have "min (nat (sint n)) m = m" using f(3) by (simp add: m_def I_def T)
  with read_chunks_bytes [OF f(1,2) T [symmetric], of "\<lparr>rest = B, good = True\<rparr>" 0]
  have ch: "map bytes (planned_slots tsz p \<lparr>rest = B, good = True\<rparr>) =
      map (\<lambda>k. take I (drop (k * I) B)) [0 ..< m]"
    by (simp add: planned_slots_def pl I_def m_def T)
  have "length B \<le> m * I" unfolding m_def by (rule ceil_mult_ge [OF Ipos])
  then show "concat (map bytes (planned_slots (of_nat (length B)) p \<lparr>rest = B, good = True\<rparr>)) = B"
    unfolding tsz_def [symmetric] ch concat_slices [OF Ipos] by simp
  show "x \<noteq> [] \<and> length x \<le> length B"
    if "x \<in> set (map bytes (planned_slots (of_nat (length B)) p \<lparr>rest = B, good = True\<rparr>))" for x
  proof -
    from that obtain k where k: "k < m" and x: "x = take I (drop (k * I) B)"
      unfolding tsz_def [symmetric] ch by auto
    from k have "k * I < length B" using ceil_lt_iff [OF Ipos, of k "length B"] by (simp add: m_def)
    with Ipos x show ?thesis by simp
  qed
  have "\<not> length B * I < length B" using Ipos by simp
  then have "\<not> length B < m" unfolding m_def using ceil_lt_iff [OF Ipos, of "length B" "length B"] by simp
  then show "length (map bytes (planned_slots (of_nat (length B)) p \<lparr>rest = B, good = True\<rparr>)) \<le> length B"
    unfolding tsz_def [symmetric] ch by simp
qed

lemma compress_file_run:
  assumes "file_size (Some B) \<noteq> 0"
  shows "compress_file cd (Some B) out_ok p =
     (let chunks = map bytes (planned_slots (file_size (Some B)) p \<lparr>rest = B, good = True\<rparr>);
          finished = map (compress_task cd) chunks;
          errs = map CompressionFailed
                   (filter (\<lambda>i. \<not> fst (finished ! i)) [0..<length finished])
      in if \<not> out_ok then
           \<lparr>exit_status = 1, out_file = None, diags = errs @ [FailedOpenOutput]\<rparr>
         else
           \<lparr>exit_status = 0,
            out_file = Some (write_header (map (\<lambda>(ok, out, m). m) finished) @
                             concat (map (\<lambda>(ok, out, m). out) finished)),
            diags = errs\<rparr>)"
  using assms
  by (simp add: compress_file_def open_in_def planned_slots_def Let_def split: prod.splits)

text \<open>
  C1. With a codec that meets the round-trip contract, for every non-empty input \<open>B\<close>
  (shorter than \<open>2^63\<close> bytes, as every file is) and every requested parallelism,
  \<open>compress_file\<close> succeeds and writes a container, and \<open>decompress_file\<close> on that
  container succeeds and writes exactly \<open>B\<close>, whatever thread count it is given.
\<close>

theorem compress_decompress_roundtrip:
  assumes "codec_roundtrip cd" and "B \<noteq> []" and "length B < 2 ^ 63"
  shows "\<exists>container.
           compress_file cd (Some B) True P =
             \<lparr>exit_status = 0, out_file = Some container, diags = []\<rparr> \<and>
           decompress_file cd (Some container) True P' =
             \<lparr>exit_status = 0, out_file = Some B, diags = []\<rparr>"
proof -
  from assms(3) have small: "length B < 9223372036854775808" by simp
  define chunks where
    "chunks = map bytes (planned_slots (of_nat (length B)) P \<lparr>rest = B, good = True\<rparr>)"
  note pc = planned_chunks [OF assms(2) small, where p = P, folded chunks_def]
  have ch: "x \<noteq> [] \<and> length x < 2 ^ 63" if "x \<in> set chunks" for x
    using pc(2) [OF that] small by simp
  have cnt: "length chunks < 2 ^ 64" using pc(3) small by simp
  note pr = pipeline_roundtrip [OF assms(1) ch cnt]
  have fs: "file_size (Some B) = of_nat (length B)"
    by (simp add: file_size_def open_in_def)
  have "unat (of_nat (length B) :: u64) = length B" using small by (simp add: unat_of_nat)
  with assms(2) have nz: "file_size (Some B) \<noteq> 0" unfolding fs by (metis length_0_conv unat_0)
  have "compress_file cd (Some B) True P =
      \<lparr>exit_status = 0,
       out_file = Some (write_header (map (\<lambda>(ok, out, m). m) (map (compress_task cd) chunks)) @
                        concat (map (\<lambda>(ok, out, m). out) (map (compress_task cd) chunks))),
       diags = []\<rparr>"
    unfolding compress_file_run [OF nz] fs chunks_def [symmetric] Let_def
    using no_failures [OF pr(1)] by simp
  with pr(2) [of P'] pc(1) show ?thesis by simp
qed

lemma zlib_bound_ge:
  fixes n :: u64
  assumes "unat n < 2 ^ 63"
  shows "unat n + 1 \<le> unat (zlib_bound n)"
proof -
  define N where "N = unat n"
  have N: "N < 9223372036854775808" using assms by (simp add: N_def)
  have d: "unat (drop_bit 12 n) = N div 4096" "unat (drop_bit 14 n) = N div 16384"
    "unat (drop_bit 25 n) = N div 33554432"
    by (simp_all add: N_def drop_bit_eq_div unat_div)
  have "N + N div 4096 + N div 16384 + N div 33554432 + 13 < 18446744073709551616"
    using N by arith
  then have "unat (zlib_bound n) = N + N div 4096 + N div 16384 + N div 33554432 + 13"
    by (simp add: zlib_bound_def unat_word_ariths d N_def [symmetric])
  then show ?thesis by (simp add: N_def)
qed

lemma stored_codec_roundtrip: "codec_roundtrip stored_codec"
  unfolding codec_roundtrip_def
proof (intro allI impI)
  fix x :: "byte list"
  assume x: "x \<noteq> [] \<and> length x < 2 ^ 63"
  then have "length x < 2 ^ 64" by simp
  then have ux: "unat (of_nat (length x) :: u64) = length x" by (simp add: unat_of_nat)
  with x zlib_bound_ge [of "of_nat (length x)"]
  have "length x + 1 \<le> unat (zlib_bound (of_nat (length x)))" by simp
  with ux show "let bound = compressBound stored_codec (of_nat (length x));
             (ret, c) = compress2 stored_codec bound x Z_BEST_COMPRESSION
         in ret = Z_OK \<and> length c \<le> unat bound \<and>
            uncompress stored_codec (of_nat (length x)) c = (Z_OK, x)"
    by (simp add: stored_codec_def Let_def)
qed

text \<open>A 65,537-byte input at parallelism 2: two chunks, of 65,536 bytes and of 1 byte.\<close>

theorem compress_decompress_roundtrip_witness:
  "\<exists>container.
     compress_file stored_codec (Some (replicate 65537 0x41)) True 2 =
       \<lparr>exit_status = 0, out_file = Some container, diags = []\<rparr> \<and>
     decompress_file stored_codec (Some container) True 7 =
       \<lparr>exit_status = 0, out_file = Some (replicate 65537 0x41), diags = []\<rparr>"
  using compress_decompress_roundtrip [OF stored_codec_roundtrip, of "replicate 65537 0x41" 2 7]
  by simp

section \<open>Codec failures\<close>

lemma compress_task_ok: "fst (compress_task cd x) = fst (compress_chunk cd x [] Z_BEST_COMPRESSION)"
  by (simp add: compress_task_def split: prod.splits)

lemma compress_task_failed:
  "\<not> fst (compress_chunk cd x [] Z_BEST_COMPRESSION) \<Longrightarrow>
   compressed_size (snd (snd (compress_task cd x))) = 0"
  by (cases "compress_chunk cd x [] Z_BEST_COMPRESSION") (simp add: compress_task_def)

text \<open>
  C8. When the codec fails on chunk \<open>i\<close> of a compression run whose output file can be
  opened, the run is not aborted: the exit status is 0 and the container is written from
  the slots of all tasks, each slot holding what its own task computed from its own
  chunk; the failing task's metadata slot records \<open>compressed_size = 0\<close>, and a failure is
  reported for exactly the chunks whose own codec call failed.
\<close>

theorem codec_failure_not_aborted:
  assumes nz: "file_size (Some B) \<noteq> 0" and ok: "out_ok"
    and ch: "chunks = map bytes (planned_slots (file_size (Some B)) p \<lparr>rest = B, good = True\<rparr>)"
    and i: "i < length chunks"
    and fail: "\<not> fst (compress_chunk cd (chunks ! i) [] Z_BEST_COMPRESSION)"
  shows "let r = compress_file cd (Some B) out_ok p;
             finished = map (compress_task cd) chunks
         in exit_status r = 0 \<and>
            out_file r = Some (write_header (map (\<lambda>(ok, out, m). m) finished) @
                               concat (map (\<lambda>(ok, out, m). out) finished)) \<and>
            compressed_size (snd (snd (finished ! i))) = 0 \<and>
            (\<forall>j. CompressionFailed j \<in> set (diags r) \<longleftrightarrow>
                 j < length chunks \<and>
                 \<not> fst (compress_chunk cd (chunks ! j) [] Z_BEST_COMPRESSION))"
proof -
  have "compressed_size (snd (snd (map (compress_task cd) chunks ! i))) = 0"
    using i compress_task_failed [OF fail] by simp
  moreover have "CompressionFailed j \<in>
      set (map CompressionFailed
            (filter (\<lambda>i. \<not> fst (map (compress_task cd) chunks ! i))
               [0..<length (map (compress_task cd) chunks)])) \<longleftrightarrow>
      j < length chunks \<and> \<not> fst (compress_chunk cd (chunks ! j) [] Z_BEST_COMPRESSION)" for j
    by (auto simp: compress_task_ok)
  ultimately show ?thesis
    unfolding compress_file_run [OF nz] ch [symmetric] Let_def using ok by simp
qed

lemma two_chunk_slots: "map bytes (planned_slots 65537 2 \<lparr>rest = replicate 65537 0x41, good = True\<rparr>) =
   [replicate 65536 0x41, [0x41]]"
  by (simp add: planned_slots_def plan_layout_def MIN_CHUNK_def word_sless_alt Let_def
        read_chunks.simps [of 0] read_chunks.simps [of "Suc 0"] read_chunks.simps [of "Suc (Suc 0)"]
        stream_read_def store_def resize_def)

text \<open>
  A 65,537-byte input at parallelism 2 with a codec that cannot allocate for sources of 2
  bytes or more: the task of chunk 0 fails, the task of chunk 1 succeeds.
\<close>

theorem codec_failure_not_aborted_witness:
  "exit_status (compress_file (oom_codec 2) (Some (replicate 65537 0x41)) True 2) = 0 \<and>
   CompressionFailed 0 \<in> set (diags (compress_file (oom_codec 2) (Some (replicate 65537 0x41)) True 2)) \<and>
   CompressionFailed 1 \<notin> set (diags (compress_file (oom_codec 2) (Some (replicate 65537 0x41)) True 2))"
proof -
  have fs: "file_size (Some (replicate 65537 (0x41 :: byte))) = 65537"
    by (simp add: file_size_def open_in_def)
  then have nz: "file_size (Some (replicate 65537 (0x41 :: byte))) \<noteq> 0" by simp
  have ch: "[replicate 65536 0x41, [0x41]] =
      map bytes (planned_slots (file_size (Some (replicate 65537 0x41))) 2
                   \<lparr>rest = replicate 65537 0x41, good = True\<rparr>)"
    unfolding fs two_chunk_slots ..
  have f0: "\<not> fst (compress_chunk (oom_codec 2) ([replicate 65536 0x41, [0x41]] ! 0) [] Z_BEST_COMPRESSION)"
    by (simp add: compress_chunk_def oom_codec_def stored_codec_def Let_def Z_OK_def Z_MEM_ERROR_def)
  have f1: "fst (compress_chunk (oom_codec 2) ([replicate 65536 0x41, [0x41]] ! 1) [] Z_BEST_COMPRESSION)"
    by (simp add: compress_chunk_def oom_codec_def stored_codec_def Let_def Z_OK_def zlib_bound_def drop_bit_eq_div)
  show ?thesis
    using codec_failure_not_aborted [OF nz _ ch _ f0, of True] f0 f1
    by (simp add: Let_def)
qed

lemma one_byte_slots: "planned_slots 1 1 \<lparr>rest = [0x41], good = True\<rparr> =
   [\<lparr>start = 0, orig_size = 1, bytes = [0x41]\<rparr>]"
  by (simp add: planned_slots_def plan_layout_def MIN_CHUNK_def word_sless_alt Let_def
        read_chunks.simps [of 0] read_chunks.simps [of "Suc 0"] stream_read_def store_def resize_def)

text \<open>
  C5, at a failing input. A 1-byte file compressed while \<open>compress2\<close> returns
  \<open>Z_MEM_ERROR\<close>: the run completes with status 0 and writes a container whose header
  declares one chunk with \<open>compressed_size = 0\<close>, followed by a payload block of 14 bytes,
  the \<open>compressBound\<close>-sized buffer that \<open>compress_chunk\<close> left untruncated.
\<close>

theorem failed_chunk_payload_mismatch:
  "compress_file (oom_codec 1) (Some [0x41]) True 1 =
     \<lparr>exit_status = 0,
      out_file = Some (write_header [\<lparr>compressed_size = 0, original_size = 1\<rparr>] @ replicate 14 0),
      diags = [CompressionFailed 0]\<rparr>"
proof -
  have fs: "file_size (Some [0x41]) = 1" by (simp add: file_size_def open_in_def)
  then have nz: "file_size (Some [0x41]) \<noteq> 0" by simp
  have task: "compress_task (oom_codec 1) [0x41] =
      (False, replicate 14 0, \<lparr>compressed_size = 0, original_size = 1\<rparr>)"
    by (simp add: compress_task_def compress_chunk_def oom_codec_def stored_codec_def
          zlib_bound_def Let_def Z_OK_def Z_MEM_ERROR_def store_def resize_def drop_bit_eq_div)
  show ?thesis
    unfolding compress_file_run [OF nz] fs one_byte_slots by (simp add: task [unfolded One_nat_def])
qed

text \<open>
  C7, at a failing input. A well-formed container whose only payload is not a valid
  stream for the codec: \<open>uncompress\<close> fails, the failure is reported on \<open>cerr\<close>, and
  \<open>decompress_file\<close> still writes the output file and returns exit status 0.
\<close>

theorem codec_failure_exit_status:
  "decompress_file stored_codec
     (Some [0x4D, 0x54, 0x5A, 0x31, 1, 0, 0, 0, 1, 0, 0, 0, 0, 0, 0, 0,
            4, 0, 0, 0, 0, 0, 0, 0, 3, 0, 0, 0, 0, 0, 0, 0, 0, 1, 2, 3]) True 1 =
   \<lparr>exit_status = 0, out_file = Some (replicate 3 0), diags = [DecompressionFailed 0]\<rparr>"
  by (simp add: decompress_file_def open_in_def read_header_def stream_read_def MAGIC_def
        VERSION_def Let_def store_def resize_def decompress_chunk_def stored_codec_def
        Z_OK_def Z_DATA_ERROR_def)


end
